theory Spec2Isabelle
  imports Main "HOL-Library.Word"
begin

section \<open>Data model\<close>

text \<open>
  Bytes are \<open>UINT8\<close>, checksums are \<open>UINT32\<close>. The sizes, offsets and loop indices of
  the source are \<open>unsigned\<close>, which is 32 bits wide: they are words of 32 bits as well,
  and their arithmetic wraps around. A \<open>UINT8 *\<close> is modelled by the memory it gives
  access to: the byte found at each index. An index of type \<open>unsigned\<close> reaches the byte
  at its value (\<open>unat\<close>); addresses themselves are not bounded.
\<close>

type_synonym UINT8 = "8 word"
type_synonym UINT32 = "32 word"
type_synonym bytes = "nat \<Rightarrow> UINT8"

datatype BOOL = OKAY | FAIL

fun BOOL_or :: "BOOL \<Rightarrow> BOOL \<Rightarrow> BOOL" where
  "BOOL_or OKAY OKAY = OKAY"
| "BOOL_or _ _ = FAIL"

text \<open>
  Modelled from the spec: the declarations of \<open>struct ROMInfo\<close>, \<open>struct GameInfo\<close> and
  \<open>struct ROMMap\<close> (Supermodel.h) are not among the sources. The records hold the fields
  that ROMLoad.cpp reads, which are the ImageDescriptor, TitleDescriptor and RegionBinding
  of the data model. A sentinel-terminated array is the list of its entries before the
  sentinel. The sizes, the offset and the stride of an image are \<open>unsigned\<close>, as the
  variables of ROMLoad.cpp that they are assigned to and compared with. The counters that
  run over these arrays (\<open>i\<close>, \<open>j\<close>, \<open>romIdx\<close>, \<open>numROMs\<close>, \<open>n\<close>) are positions in
  the lists.
\<close>

record ROMInfo =
  region :: string
  file' :: string
  crc :: UINT32
  fileSize :: UINT32
  groupSize :: UINT32
  offset :: UINT32
  stride :: UINT32
  byteSwap :: bool

record GameInfo =
  id' :: string
  title :: string
  ROM :: "ROMInfo list"

text \<open>
  A \<open>const struct GameInfo *\<close> is the position it points to together with the title found
  there. Pointers are compared by position. The pointers \<open>&GameList[i]\<close> are the pairs
  \<open>(i, GameList ! i)\<close>.
\<close>

type_synonym GameInfo_ptr = "nat \<times> GameInfo"

text \<open>
  The destination regions live in one address space (\<open>bytes\<close>, indexed by address); the
  \<open>ptr\<close> of a binding is the address of its first byte, so that bindings may point
  into the same allocation.
\<close>

record ROMMap =
  map_region :: string
  ptr :: nat

text \<open>
  Modelled from the spec: the archive reader (Pkgs/unzip.h) is not among the sources. An
  archive is the sequence of the entries that the iteration with \<open>unzGoToFirstFile\<close> and
  \<open>unzGoToNextFile\<close> visits, from the first to the end of the list; an entry records what
  the reader answers for it: whether its metadata can be read, its checksum and
  uncompressed length, its name, whether it can be opened, the bytes that reading it
  delivers, whether reading succeeds and whether closing it reports a checksum mismatch.
\<close>

record zip_entry =
  info_ok :: bool
  entry_crc :: UINT32
  uncompressed_size :: nat
  name_ok :: bool
  entry_name :: string
  open_ok :: bool
  entry_data :: "UINT8 list"
  read_ok :: bool
  close_crc_error :: bool

type_synonym unzFile = "zip_entry list"

text \<open>The diagnostics of ROMLoad.cpp, with the arguments that tell them apart.\<close>

datatype message =
    Err_UnableToOpen
  | Err_UnableToReadContents
  | Dbg_SetIdentified string string
  | Dbg_AlsoContains string string
  | Err_MultipleGames string
  | Err_NoSupportedGames
  | Err_Missing string UINT32
  | Err_InsufficientMemory UINT32
  | Err_NoFileName
  | Err_IncorrectSize string UINT32
  | Err_UnableToRead string
  | Err_CRCError string
  | Err_NoMapping string
  | Err_FailedToLoad string UINT32

text \<open>
  Modelled from the spec: \<open>ErrorLog\<close> and \<open>DebugLog\<close> are defined outside ROMLoad.cpp. They
  hand the message to the logging sink, here the list of messages so far; \<open>ErrorLog\<close>
  answers \<open>FAIL\<close>, which ROMLoad.cpp returns as its own failure.
\<close>

definition ErrorLog :: "message \<Rightarrow> message list \<Rightarrow> BOOL \<times> message list" where
  "ErrorLog m msgs = (FAIL, msgs @ [m])"

definition DebugLog :: "message \<Rightarrow> message list \<Rightarrow> message list" where
  "DebugLog m msgs = msgs @ [m]"

section \<open>CopyRegion\<close>

text \<open>
  \<open>memcpy\<close> between two buffers that do not overlap: \<open>n\<close> bytes of \<open>src\<close> go to
  \<open>&dest[destOffset]\<close>.
\<close>

definition memcpy :: "bytes \<Rightarrow> nat \<Rightarrow> bytes \<Rightarrow> nat \<Rightarrow> bytes" where
  "memcpy dest destOffset src n =
     (\<lambda>i. if destOffset \<le> i \<and> i < destOffset + n then src (i - destOffset) else dest i)"

text \<open>
  The loop of \<open>CopyRegion\<close> need not end, so the function is partial: \<open>None\<close> says that
  the call does not return, \<open>Some dest\<close> gives the destination when it does. The sum
  \<open>destOffset + srcSize\<close> of the test is a sum of the type \<open>unsigned\<close>.
\<close>

partial_function (option) CopyRegion ::
  "bytes \<Rightarrow> UINT32 \<Rightarrow> UINT32 \<Rightarrow> bytes \<Rightarrow> UINT32 \<Rightarrow> bytes option" where
  "CopyRegion dest destOffset destSize src srcSize =
     (if destOffset < destSize then
        (let srcSize' = (if destOffset + srcSize \<ge> destSize then destSize - destOffset else srcSize)
         in CopyRegion (memcpy dest (unat destOffset) src (unat srcSize')) (destOffset + srcSize')
              destSize src srcSize')
      else Some dest)"

section \<open>Lookup by checksum\<close>

fun FindROMByCRCInGame_loop :: "ROMInfo list \<Rightarrow> nat \<Rightarrow> UINT32 \<Rightarrow> nat option" where
  "FindROMByCRCInGame_loop [] j c = None"
| "FindROMByCRCInGame_loop (r # rs) j c =
     (if c = crc r then Some j else FindROMByCRCInGame_loop rs (Suc j) c)"

definition FindROMByCRCInGame :: "GameInfo_ptr \<Rightarrow> UINT32 \<Rightarrow> (GameInfo_ptr \<times> nat) option" where
  "FindROMByCRCInGame Game c =
     (case FindROMByCRCInGame_loop (ROM (snd Game)) 0 c of
        Some j \<Rightarrow> Some (Game, j)
      | None \<Rightarrow> None)"

fun FindROMByCRC_loop :: "GameInfo list \<Rightarrow> nat \<Rightarrow> UINT32 \<Rightarrow> (GameInfo_ptr \<times> nat) option" where
  "FindROMByCRC_loop [] i c = None"
| "FindROMByCRC_loop (G # Gs) i c =
     (case FindROMByCRCInGame (i, G) c of
        Some found \<Rightarrow> Some found
      | None \<Rightarrow> FindROMByCRC_loop Gs (Suc i) c)"

definition FindROMByCRC ::
  "GameInfo list \<Rightarrow> GameInfo_ptr option \<Rightarrow> UINT32 \<Rightarrow> (GameInfo_ptr \<times> nat) option" where
  "FindROMByCRC GameList TryGame c =
     (case (case TryGame of
              Some T \<Rightarrow> FindROMByCRCInGame T c
            | None \<Rightarrow> None) of
        Some found \<Rightarrow> Some found
      | None \<Rightarrow> FindROMByCRC_loop GameList 0 c)"

section \<open>ByteSwap\<close>

text \<open>
  The loop over \<open>i\<close>. The step \<open>i += 2\<close> wraps around at the top of the range of
  \<open>unsigned\<close>, so the loop need not end and the function is partial.
\<close>

partial_function (option) ByteSwap_loop :: "bytes \<Rightarrow> UINT32 \<Rightarrow> UINT32 \<Rightarrow> bytes option" where
  "ByteSwap_loop buf size' i =
     (if i < size' then
        (let x = buf (unat (i + 0));
             buf = buf(unat (i + 0) := buf (unat (i + 1)));
             buf = buf(unat (i + 1) := x)
         in ByteSwap_loop buf size' (i + 2))
      else Some buf)"

definition ByteSwap :: "bytes \<Rightarrow> UINT32 \<Rightarrow> bytes option" where
  "ByteSwap buf size' = ByteSwap_loop buf size' 0"

section \<open>LoadROM\<close>

text \<open>
  Modelled from the spec: \<open>unzReadCurrentFile\<close> decompresses the current entry into the
  buffer, at most \<open>len\<close> bytes, and answers the number of bytes read, or a negative code
  when reading fails.
\<close>

definition unzReadCurrentFile :: "zip_entry \<Rightarrow> bytes \<Rightarrow> UINT32 \<Rightarrow> int \<times> bytes" where
  "unzReadCurrentFile e buf len =
     (let n = min (unat len) (length (entry_data e))
      in (if read_ok e then int n else - 1,
          (\<lambda>i. if i < n then entry_data e ! i else buf i)))"

text \<open>
  The inner loop over \<open>j\<close>: one group of \<open>groupSize\<close> consecutive bytes. \<open>p\<close> is the
  address \<open>Map[i].ptr\<close> of the region; the index \<open>destIdx + j\<close> is a sum of the type
  \<open>unsigned\<close>. The loop ends: \<open>j\<close> is below \<open>groupSize\<close> when it is incremented.
\<close>

function LoadROM_group ::
  "bytes \<Rightarrow> nat \<Rightarrow> UINT32 \<Rightarrow> bytes \<Rightarrow> UINT32 \<Rightarrow> UINT32 \<Rightarrow> UINT32 \<Rightarrow> bytes \<times> UINT32" where
  "LoadROM_group mem p destIdx buf srcIdx gs j =
     (if j < gs then
        LoadROM_group (mem(p + unat (destIdx + j) := buf (unat srcIdx))) p destIdx buf (srcIdx + 1)
          gs (j + 1)
      else (mem, srcIdx))"
  by pat_completeness auto
termination
proof (relation "measure (\<lambda>(mem, p, destIdx, buf, srcIdx, gs, j). unat gs - unat j)")
  fix mem buf :: bytes and p :: nat and destIdx srcIdx gs j :: UINT32
  assume "j < gs"
  then have lt: "unat j < unat gs" by (simp add: word_less_nat_alt)
  have "unat gs < 2 ^ 32" using unsigned_less [of gs] by simp
  with lt have "unat j + unat (1 :: UINT32) < 2 ^ LENGTH(32)" by simp
  then have "unat (j + 1) = unat j + unat (1 :: UINT32)" by (simp only: unat_add_lem)
  with lt show "((mem(p + unat (destIdx + j) := buf (unat srcIdx)), p, destIdx, buf, srcIdx + 1,
                  gs, j + 1), (mem, p, destIdx, buf, srcIdx, gs, j))
      \<in> measure (\<lambda>(mem, p, destIdx, buf, srcIdx, gs, j). unat gs - unat j)"
    by simp
qed simp

declare LoadROM_group.simps [simp del]

text \<open>
  The outer loop over \<open>srcIdx\<close>. It makes no progress when \<open>groupSize\<close> is 0, and
  \<open>srcIdx\<close> may wrap around, so it is partial as well.
\<close>

partial_function (option) LoadROM_place ::
  "ROMInfo \<Rightarrow> bytes \<Rightarrow> nat \<Rightarrow> bytes \<Rightarrow> UINT32 \<Rightarrow> UINT32 \<Rightarrow> bytes option" where
  "LoadROM_place R buf p mem srcIdx destIdx =
     (if srcIdx < fileSize R then
        LoadROM_place R buf p
          (fst (LoadROM_group mem p destIdx buf srcIdx (groupSize R) 0))
          (snd (LoadROM_group mem p destIdx buf srcIdx (groupSize R) 0))
          (destIdx + stride R)
      else Some mem)"

text \<open>The search of the binding table: the first binding of the region.\<close>

fun LoadROM_find_map :: "ROMMap list \<Rightarrow> string \<Rightarrow> nat option" where
  "LoadROM_find_map [] r = None"
| "LoadROM_find_map (m # ms) r = (if map_region m = r then Some (ptr m) else LoadROM_find_map ms r)"

text \<open>
  \<open>LoadROM\<close> on the current entry \<open>e\<close> of the archive. It answers \<open>OKAY\<close> or \<open>FAIL\<close>
  and leaves the scratch buffer, the destination memory and the messages; it does not
  return (\<open>None\<close>) when the byte swap or the placement does not. The length of the entry
  (\<open>uLong\<close>) is compared with \<open>fileSize\<close> by value; the \<open>int\<close> that
  \<open>unzReadCurrentFile\<close> answers is converted to \<open>unsigned\<close> for its comparison with
  \<open>fileSize\<close>.
\<close>

definition LoadROM ::
  "bytes \<Rightarrow> UINT32 \<Rightarrow> ROMMap list \<Rightarrow> ROMInfo \<Rightarrow> zip_entry \<Rightarrow> bool \<Rightarrow> bytes \<Rightarrow> message list \<Rightarrow>
   (BOOL \<times> bytes \<times> bytes \<times> message list) option" where
  "LoadROM buf bufSize Map R e loadAll mem msgs =
     (if \<not> name_ok e then
        Some (fst (ErrorLog Err_NoFileName msgs), buf, mem, snd (ErrorLog Err_NoFileName msgs))
      else if uncompressed_size e \<noteq> unat (fileSize R) then
        Some (fst (ErrorLog (Err_IncorrectSize (entry_name e) (fileSize R)) msgs), buf, mem,
              snd (ErrorLog (Err_IncorrectSize (entry_name e) (fileSize R)) msgs))
      else if \<not> open_ok e then
        Some (fst (ErrorLog (Err_UnableToRead (entry_name e)) msgs), buf, mem,
              snd (ErrorLog (Err_UnableToRead (entry_name e)) msgs))
      else
        (let bytes = fst (unzReadCurrentFile e buf bufSize);
             buf = snd (unzReadCurrentFile e buf bufSize)
         in if word_of_int bytes \<noteq> fileSize R then
              Some (fst (ErrorLog (Err_UnableToRead (entry_name e)) msgs), buf, mem,
                    snd (ErrorLog (Err_UnableToRead (entry_name e)) msgs))
            else
              (let msgs = (if close_crc_error e
                           then snd (ErrorLog (Err_CRCError (entry_name e)) msgs) else msgs)
               in case (if byteSwap R then ByteSwap buf (fileSize R) else Some buf) of
                    None \<Rightarrow> None
                  | Some buf \<Rightarrow>
                      (case LoadROM_find_map Map (region R) of
                         Some p \<Rightarrow>
                           (case LoadROM_place R buf p mem 0 (offset R) of
                              Some mem' \<Rightarrow> Some (OKAY, buf, mem', msgs)
                            | None \<Rightarrow> None)
                       | None \<Rightarrow>
                           if loadAll then
                             Some (fst (ErrorLog (Err_NoMapping (region R)) msgs), buf, mem,
                                   snd (ErrorLog (Err_NoMapping (region R)) msgs))
                           else Some (OKAY, buf, mem, msgs)))))"

section \<open>LoadROMSetFromZIPFile\<close>

text \<open>The variables of the first loop over the archive.\<close>

record scan_state =
  Game :: "GameInfo_ptr option"
  romsFound :: "nat \<Rightarrow> bool"
  multipleGameError :: bool
  scan_msgs :: "message list"

definition scan_init :: scan_state where
  "scan_init = \<lparr>Game = None, romsFound = (\<lambda>_. False), multipleGameError = False, scan_msgs = []\<rparr>"

text \<open>One round of the first loop, on entry \<open>e\<close>.\<close>

definition scan_entry :: "GameInfo list \<Rightarrow> scan_state \<Rightarrow> zip_entry \<Rightarrow> scan_state" where
  "scan_entry GameList s e =
     (if \<not> info_ok e then s
      else case FindROMByCRC GameList (Game s) (entry_crc e) of
        None \<Rightarrow> s
      | Some (CurGame, romIdx) \<Rightarrow>
          (let s = (case Game s of
                      None \<Rightarrow>
                        s\<lparr>Game := Some CurGame,
                          scan_msgs := DebugLog (Dbg_SetIdentified (id' (snd CurGame))
                                         (title (snd CurGame))) (scan_msgs s)\<rparr>
                    | Some G \<Rightarrow>
                        if fst CurGame \<noteq> fst G then
                          (let s = s\<lparr>scan_msgs := DebugLog (Dbg_AlsoContains (id' (snd CurGame))
                                                    (title (snd CurGame))) (scan_msgs s)\<rparr>
                           in if \<not> multipleGameError s then
                                s\<lparr>scan_msgs := snd (ErrorLog (Err_MultipleGames (title (snd G)))
                                                    (scan_msgs s)),
                                  multipleGameError := True\<rparr>
                              else s)
                        else s)
           in case Game s of
                None \<Rightarrow> s
              | Some G \<Rightarrow>
                  if fst G = fst CurGame
                  then s\<lparr>romsFound := (romsFound s)(romIdx := True)\<rparr>
                  else s))"

definition scan_archive :: "GameInfo list \<Rightarrow> unzFile \<Rightarrow> scan_state" where
  "scan_archive GameList zf = foldl (scan_entry GameList) scan_init zf"

text \<open>The loop that reports the images the scan has not found.\<close>

fun report_missing ::
  "ROMInfo list \<Rightarrow> nat \<Rightarrow> (nat \<Rightarrow> bool) \<Rightarrow> BOOL \<Rightarrow> message list \<Rightarrow> BOOL \<times> message list" where
  "report_missing [] i found err msgs = (err, msgs)"
| "report_missing (r # rs) i found err msgs =
     (if \<not> found i then
        report_missing rs (Suc i) found
          (BOOL_or err (fst (ErrorLog (Err_Missing (file' r) (crc r)) msgs)))
          (snd (ErrorLog (Err_Missing (file' r) (crc r)) msgs))
      else report_missing rs (Suc i) found err msgs)"

text \<open>The size of the largest image.\<close>

fun max_fileSize :: "ROMInfo list \<Rightarrow> UINT32 \<Rightarrow> UINT32" where
  "max_fileSize [] maxSize = maxSize"
| "max_fileSize (r # rs) maxSize =
     max_fileSize rs (if fileSize r > maxSize then fileSize r else maxSize)"

text \<open>The variables of the second loop over the archive.\<close>

record load_state =
  romsLoaded :: "nat \<Rightarrow> bool"
  scratch :: bytes
  memory :: bytes
  load_msgs :: "message list"

text \<open>One round of the second loop, on entry \<open>e\<close>.\<close>

definition load_entry ::
  "ROMMap list \<Rightarrow> GameInfo list \<Rightarrow> GameInfo_ptr \<Rightarrow> UINT32 \<Rightarrow> bool \<Rightarrow> load_state \<Rightarrow> zip_entry \<Rightarrow>
   load_state option" where
  "load_entry Map GameList G maxSize loadAll s e =
     (if \<not> info_ok e then Some s
      else case FindROMByCRC GameList (Some G) (entry_crc e) of
        None \<Rightarrow> Some s
      | Some (CurGame, romIdx) \<Rightarrow>
          if fst CurGame = fst G then
            (case LoadROM (scratch s) maxSize Map (ROM (snd G) ! romIdx) e loadAll
                    (memory s) (load_msgs s) of
               None \<Rightarrow> None
             | Some (res, buf, mem, msgs) \<Rightarrow>
                 Some \<lparr>romsLoaded = (if res = OKAY then (romsLoaded s)(romIdx := True)
                                     else romsLoaded s),
                       scratch = buf, memory = mem, load_msgs = msgs\<rparr>)
          else Some s)"

fun load_archive ::
  "ROMMap list \<Rightarrow> GameInfo list \<Rightarrow> GameInfo_ptr \<Rightarrow> UINT32 \<Rightarrow> bool \<Rightarrow> load_state \<Rightarrow> unzFile \<Rightarrow>
   load_state option" where
  "load_archive Map GameList G maxSize loadAll s [] = Some s"
| "load_archive Map GameList G maxSize loadAll s (e # es) =
     (case load_entry Map GameList G maxSize loadAll s e of
        None \<Rightarrow> None
      | Some s' \<Rightarrow> load_archive Map GameList G maxSize loadAll s' es)"

text \<open>The loop that counts the images loaded and reports the others.\<close>

fun count_loaded ::
  "ROMInfo list \<Rightarrow> nat \<Rightarrow> (nat \<Rightarrow> bool) \<Rightarrow> nat \<Rightarrow> message list \<Rightarrow> nat \<times> message list" where
  "count_loaded [] i loaded n msgs = (n, msgs)"
| "count_loaded (r # rs) i loaded n msgs =
     (if loaded i then count_loaded rs (Suc i) loaded (n + 1) msgs
      else count_loaded rs (Suc i) loaded n
             (snd (ErrorLog (Err_FailedToLoad (file' r) (crc r)) msgs)))"

text \<open>
  The load. \<open>zipFile\<close> is what \<open>unzOpen\<close> answers for the path: the archive, or nothing.
  \<open>unzGoToFirstFile\<close> fails when there is no entry to visit. \<open>alloc\<close> is the allocator:
  for a size, the fresh buffer with whatever it contains, or nothing. The result is the
  pointer returned (\<open>None\<close> for \<open>NULL\<close>), the destination memory and the messages; the
  load does not return (\<open>None\<close>) when a call of \<open>LoadROM\<close> does not.
\<close>

definition LoadROMSetFromZIPFile ::
  "ROMMap list \<Rightarrow> GameInfo list \<Rightarrow> unzFile option \<Rightarrow> bool \<Rightarrow> (UINT32 \<Rightarrow> bytes option) \<Rightarrow> bytes \<Rightarrow>
   (GameInfo_ptr option \<times> bytes \<times> message list) option" where
  "LoadROMSetFromZIPFile Map GameList zipFile loadAll alloc mem =
     (case zipFile of
        None \<Rightarrow> Some (None, mem, snd (ErrorLog Err_UnableToOpen []))
      | Some zf \<Rightarrow>
          if zf = [] then Some (None, mem, snd (ErrorLog Err_UnableToReadContents []))
          else
            (let s = scan_archive GameList zf
             in case Game s of
                  None \<Rightarrow> Some (None, mem, snd (ErrorLog Err_NoSupportedGames (scan_msgs s)))
                | Some G \<Rightarrow>
                    (let numROMs = length (ROM (snd G));
                         chk = report_missing (ROM (snd G)) 0 (romsFound s) OKAY (scan_msgs s)
                     in if fst chk \<noteq> OKAY then Some (None, mem, snd chk)
                        else
                          (let maxSize = max_fileSize (ROM (snd G)) 0
                           in case alloc maxSize of
                                None \<Rightarrow>
                                  Some (None, mem,
                                        snd (ErrorLog (Err_InsufficientMemory maxSize) (snd chk)))
                              | Some buf \<Rightarrow>
                                  if zf = [] then
                                    Some (None, mem,
                                          snd (ErrorLog Err_UnableToReadContents (snd chk)))
                                  else
                                    (case load_archive Map GameList G maxSize loadAll
                                            \<lparr>romsLoaded = (\<lambda>_. False), scratch = buf,
                                             memory = mem, load_msgs = snd chk\<rparr> zf of
                                       None \<Rightarrow> None
                                     | Some t \<Rightarrow>
                                         if loadAll then
                                           (let cnt = count_loaded (ROM (snd G)) 0 (romsLoaded t)
                                                        0 (load_msgs t)
                                            in Some (if fst cnt < numROMs then None else Some G,
                                                     memory t, snd cnt))
                                         else Some (Some G, memory t, load_msgs t))))))"

section \<open>Example data\<close>

definition rom_C6 :: ROMInfo where
  "rom_C6 = \<lparr>region = ''crom'', file' = ''a.bin'', crc = 1, fileSize = 3, groupSize = 3, offset = 2,
     stride = 3, byteSwap = False\<rparr>"

definition rom_C7 :: ROMInfo where
  "rom_C7 = \<lparr>region = ''vrom'', file' = ''b.bin'', crc = 2, fileSize = 2, groupSize = 1, offset = 1,
     stride = 2, byteSwap = False\<rparr>"

text \<open>
  Images placed at the top of the range of \<open>unsigned\<close>: the first as one group from
  offset \<open>2 ^ 32 - 1\<close>, the second byte by byte with stride 2 from offset \<open>2 ^ 32 - 2\<close>.
\<close>

definition rom_C6_top :: ROMInfo where
  "rom_C6_top = \<lparr>region = ''crom'', file' = ''a.bin'', crc = 1, fileSize = 2, groupSize = 2,
     offset = 0xFFFFFFFF, stride = 2, byteSwap = False\<rparr>"

definition rom_C7_top :: ROMInfo where
  "rom_C7_top = \<lparr>region = ''vrom'', file' = ''b.bin'', crc = 2, fileSize = 2, groupSize = 1,
     offset = 0xFFFFFFFE, stride = 2, byteSwap = False\<rparr>"

text \<open>
  A catalog of two titles. Title A has two images that interleave byte by byte in region
  \<open>crom\<close>; title B has one image.
\<close>

definition ex_rom_A1 :: ROMInfo where
  "ex_rom_A1 = \<lparr>region = ''crom'', file' = ''a1.bin'', crc = 17, fileSize = 2, groupSize = 1,
     offset = 0, stride = 2, byteSwap = False\<rparr>"

definition ex_rom_A2 :: ROMInfo where
  "ex_rom_A2 = \<lparr>region = ''crom'', file' = ''a2.bin'', crc = 18, fileSize = 2, groupSize = 1,
     offset = 1, stride = 2, byteSwap = False\<rparr>"

definition ex_rom_B1 :: ROMInfo where
  "ex_rom_B1 = \<lparr>region = ''crom'', file' = ''b1.bin'', crc = 33, fileSize = 2, groupSize = 2,
     offset = 0, stride = 2, byteSwap = True\<rparr>"

definition ex_game_A :: GameInfo where
  "ex_game_A = \<lparr>id' = ''gamea'', title = ''Game A'', ROM = [ex_rom_A1, ex_rom_A2]\<rparr>"

definition ex_game_B :: GameInfo where
  "ex_game_B = \<lparr>id' = ''gameb'', title = ''Game B'', ROM = [ex_rom_B1]\<rparr>"

definition ex_catalog :: "GameInfo list" where
  "ex_catalog = [ex_game_A, ex_game_B]"

text \<open>
  A catalog in which the second title lists a checksum of the first: the second image of
  title A is an image of title B2 as well.
\<close>

definition ex_rom_B2 :: ROMInfo where
  "ex_rom_B2 = \<lparr>region = ''crom'', file' = ''b2.bin'', crc = 18, fileSize = 2, groupSize = 1,
     offset = 1, stride = 2, byteSwap = False\<rparr>"

definition ex_game_B2 :: GameInfo where
  "ex_game_B2 = \<lparr>id' = ''gameb2'', title = ''Game B2'', ROM = [ex_rom_B1, ex_rom_B2]\<rparr>"

definition ex_catalog_shared :: "GameInfo list" where
  "ex_catalog_shared = [ex_game_A, ex_game_B2]"

definition ex_Map :: "ROMMap list" where
  "ex_Map = [\<lparr>map_region = ''crom'', ptr = 100\<rparr>]"

text \<open>Memory full of zeros, and an allocator that hands it out.\<close>

definition ex_mem :: bytes where
  "ex_mem = (\<lambda>_. 0)"

text \<open>A source buffer: the byte 7 followed by bytes 9.\<close>

definition ex_src :: bytes where
  "ex_src = (\<lambda>i. if i = 0 then 7 else 9)"

definition ex_alloc :: "UINT32 \<Rightarrow> bytes option" where
  "ex_alloc n = Some ex_mem"

text \<open>An entry that the reader handles without error.\<close>

definition ex_entry :: "UINT32 \<Rightarrow> nat \<Rightarrow> UINT8 list \<Rightarrow> zip_entry" where
  "ex_entry c n d = \<lparr>info_ok = True, entry_crc = c, uncompressed_size = n, name_ok = True,
     entry_name = ''rom'', open_ok = True, entry_data = d, read_ok = True,
     close_crc_error = False\<rparr>"

text \<open>
  Archives: title A complete; title A without its second image; title A with entries of
  title B among its own; title A with a second image of the wrong length; the same with
  one more entry that has the second image at its right length.
\<close>

definition ex_zip_A :: unzFile where
  "ex_zip_A = [ex_entry 17 2 [1, 2], ex_entry 18 2 [3, 4]]"

definition ex_zip_A1 :: unzFile where
  "ex_zip_A1 = [ex_entry 17 2 [1, 2]]"

definition ex_zip_AB :: unzFile where
  "ex_zip_AB = [ex_entry 17 2 [1, 2], ex_entry 33 2 [5, 6], ex_entry 18 2 [3, 4],
     ex_entry 33 2 [5, 6]]"

definition ex_zip_bad :: unzFile where
  "ex_zip_bad = [ex_entry 17 2 [1, 2], ex_entry 18 3 [3, 4, 5]]"

definition ex_zip_dup :: unzFile where
  "ex_zip_dup = [ex_entry 17 2 [1, 2], ex_entry 18 3 [3, 4, 5], ex_entry 18 2 [3, 4]]"

section \<open>Notions used to state the properties of ByteSwap and of the placement\<close>

text \<open>
  The buffer with each adjacent pair of bytes exchanged, over the first \<open>n\<close> bytes
  (\<open>n\<close> even): the bytes 0 and 1, 2 and 3, and so on.
\<close>

definition swap_pairs :: "nat \<Rightarrow> bytes \<Rightarrow> bytes" where
  "swap_pairs n buf = (\<lambda>a. if a < n then (if even a then buf (Suc a) else buf (a - 1)) else buf a)"

text \<open>
  The decoded bytes of an image with each adjacent pair exchanged.
\<close>

fun swap_bytes :: "UINT8 list \<Rightarrow> UINT8 list" where
  "swap_bytes (a # b # ds) = b # a # swap_bytes ds"
| "swap_bytes ds = ds"

text \<open>
  The placement as the specification words it: from the cursor \<open>c\<close> in the destination,
  copy \<open>g\<close> contiguous source bytes and advance the cursor by \<open>st\<close> bytes, again and
  again until all the decoded bytes \<open>ds\<close> are consumed. Positions are natural numbers:
  nothing wraps around here.
\<close>

function Place_groups :: "nat \<Rightarrow> nat \<Rightarrow> UINT8 list \<Rightarrow> nat \<Rightarrow> bytes \<Rightarrow> bytes" where
  "Place_groups g st ds c mem =
     (if ds = [] \<or> g = 0 then mem
      else Place_groups g st (drop g ds) (c + st)
             (\<lambda>a. if c \<le> a \<and> a < c + length (take g ds) then ds ! (a - c) else mem a))"
  by pat_completeness auto
termination
  by (relation "measure (\<lambda>(g, st, ds, c, mem). length ds)") auto

declare Place_groups.simps [simp del]

text \<open>
  The placement of the decoded bytes \<open>ds\<close> of image \<open>R\<close>: the region of the image is
  resolved against the bindings (the first binding of the name); without a binding
  nothing is placed; with one, the bytes are swapped in pairs when the image asks for
  it and placed from \<open>offset\<close> in the region.
\<close>

definition Place :: "ROMMap list \<Rightarrow> ROMInfo \<Rightarrow> UINT8 list \<Rightarrow> bytes \<Rightarrow> bytes" where
  "Place Map R ds mem =
     (case map_of (map (\<lambda>m. (map_region m, ptr m)) Map) (region R) of
        None \<Rightarrow> mem
      | Some p \<Rightarrow>
          Place_groups (unat (groupSize R)) (unat (stride R))
            (if byteSwap R then swap_bytes ds else ds) (p + unat (offset R)) mem)"

text \<open>
  The image of title \<open>G\<close> that an entry is: the first position of the image list of
  \<open>G\<close> with the checksum of the entry, when the metadata of the entry can be read.
\<close>

definition image_of :: "GameInfo \<Rightarrow> zip_entry \<Rightarrow> nat option" where
  "image_of G e =
     (if info_ok e \<and> entry_crc e \<in> crc ` set (ROM G)
      then Some (length (takeWhile (\<lambda>r. crc r \<noteq> entry_crc e) (ROM G))) else None)"

text \<open>
  What the extraction pass does to the destination memory with one entry, for the
  identified title \<open>G\<close> and a scratch buffer of \<open>maxSize\<close> bytes: an entry that is an
  image of \<open>G\<close>, has the expected length, can be opened and read, and delivers the
  expected number of bytes into the scratch buffer, is placed; any other entry leaves the
  memory as it is.
\<close>

definition Place_entry :: "ROMMap list \<Rightarrow> GameInfo \<Rightarrow> UINT32 \<Rightarrow> bytes \<Rightarrow> zip_entry \<Rightarrow> bytes" where
  "Place_entry Map G maxSize mem e =
     (case image_of G e of
        None \<Rightarrow> mem
      | Some i \<Rightarrow>
          (let R = ROM G ! i; ds = take (unat maxSize) (entry_data e)
           in if name_ok e \<and> uncompressed_size e = unat (fileSize R) \<and> open_ok e \<and> read_ok e \<and>
                 length ds = unat (fileSize R)
              then Place Map R ds mem else mem))"

text \<open>
  An image is well formed when its length is below \<open>2 ^ 31\<close> and, unless it is empty, its
  group size is positive and divides its length, its length is even if its bytes are to
  be swapped, and its last group ends within the \<open>2 ^ 32\<close> indices of its region.
\<close>

definition well_formed :: "ROMInfo \<Rightarrow> bool" where
  "well_formed R \<longleftrightarrow>
     fileSize R < 0x80000000 \<and>
     (fileSize R = 0 \<or>
      0 < groupSize R \<and> unat (groupSize R) dvd unat (fileSize R) \<and>
      (byteSwap R \<longrightarrow> even (unat (fileSize R))) \<and>
      unat (offset R) + (unat (fileSize R) div unat (groupSize R) - 1) * unat (stride R) +
        unat (groupSize R) \<le> 2 ^ 32)"

section \<open>Notions used to state the properties of the load\<close>

text \<open>
  \<open>first_match GameList zf\<close> is the title that the first entry of the archive with a known
  checksum belongs to: the entry met first whose metadata can be read and whose checksum
  the catalog holds, and the first title of the catalog that lists this checksum (lemmas
  \<open>first_match_None_iff\<close> and \<open>first_match_Some_iff\<close>).
\<close>

fun first_match :: "GameInfo list \<Rightarrow> unzFile \<Rightarrow> GameInfo_ptr option" where
  "first_match GameList [] = None"
| "first_match GameList (e # es) =
     (if info_ok e then
        (case FindROMByCRC GameList None (entry_crc e) of
           Some (G, j) \<Rightarrow> Some G
         | None \<Rightarrow> first_match GameList es)
      else first_match GameList es)"

text \<open>
  Once title \<open>G\<close> is identified, entry \<open>e\<close> is image \<open>i\<close> of \<open>G\<close> when the lookup of its
  checksum, tried in \<open>G\<close> first, ends in \<open>G\<close> at position \<open>i\<close>; it is foreign when the
  lookup ends in another title, and the title's own when the lookup ends in \<open>G\<close>. Image
  \<open>i\<close> is present when some entry is image \<open>i\<close>. For a title of the catalog this
  says: \<open>G\<close> lists the checksum of the entry first at position \<open>i\<close>; some title lists the
  checksum and \<open>G\<close> does not; \<open>G\<close> lists the checksum (lemmas \<open>is_image_iff\<close>,
  \<open>is_foreign_iff\<close> and \<open>is_own_iff\<close>).
\<close>

definition is_image :: "GameInfo list \<Rightarrow> GameInfo_ptr \<Rightarrow> zip_entry \<Rightarrow> nat \<Rightarrow> bool" where
  "is_image GameList G e i =
     (info_ok e \<and>
      (case FindROMByCRC GameList (Some G) (entry_crc e) of
         Some (CurGame, romIdx) \<Rightarrow> fst CurGame = fst G \<and> romIdx = i
       | None \<Rightarrow> False))"

definition is_foreign :: "GameInfo list \<Rightarrow> GameInfo_ptr \<Rightarrow> zip_entry \<Rightarrow> bool" where
  "is_foreign GameList G e =
     (info_ok e \<and>
      (case FindROMByCRC GameList (Some G) (entry_crc e) of
         Some (CurGame, romIdx) \<Rightarrow> fst CurGame \<noteq> fst G
       | None \<Rightarrow> False))"

definition is_own :: "GameInfo list \<Rightarrow> GameInfo_ptr \<Rightarrow> zip_entry \<Rightarrow> bool" where
  "is_own GameList G e =
     (info_ok e \<and>
      (case FindROMByCRC GameList (Some G) (entry_crc e) of
         Some (CurGame, romIdx) \<Rightarrow> fst CurGame = fst G
       | None \<Rightarrow> False))"

definition present :: "GameInfo list \<Rightarrow> GameInfo_ptr \<Rightarrow> unzFile \<Rightarrow> nat \<Rightarrow> bool" where
  "present GameList G zf i = (\<exists>e\<in>set zf. is_image GameList G e i)"

text \<open>The positions of the images of \<open>G\<close> that are not present, in the order of the catalog.\<close>

definition missing_images :: "GameInfo list \<Rightarrow> GameInfo_ptr \<Rightarrow> unzFile \<Rightarrow> nat list" where
  "missing_images GameList G zf =
     filter (\<lambda>i. \<not> present GameList G zf i) [0..<length (ROM (snd G))]"

text \<open>A pointer into the catalog: a position of the list with the title found there.\<close>

definition in_catalog :: "GameInfo list \<Rightarrow> GameInfo_ptr \<Rightarrow> bool" where
  "in_catalog GameList G = (fst G < length GameList \<and> GameList ! fst G = snd G)"

fun is_MultipleGames :: "message \<Rightarrow> bool" where
  "is_MultipleGames (Err_MultipleGames t) = True"
| "is_MultipleGames _ = False"

fun is_Missing :: "message \<Rightarrow> bool" where
  "is_Missing (Err_Missing f c) = True"
| "is_Missing _ = False"

section \<open>Arithmetic of \<open>unsigned\<close>\<close>

lemma unat_add_nowrap:
  fixes x y :: UINT32
  shows "unat x + unat y < 2 ^ 32 \<Longrightarrow> unat (x + y) = unat x + unat y"
  using unat_add_lem [of x y] by simp

lemma unat_lt32: "unat (x :: UINT32) < 2 ^ 32"
  using unsigned_less [of x] by simp

section \<open>Properties of CopyRegion\<close>

lemma CopyRegion_done:
  "\<not> destOffset < destSize \<Longrightarrow> CopyRegion dest destOffset destSize src srcSize = Some dest"
  by (subst CopyRegion.simps) simp

text \<open>
  The loop fills the destination from \<open>destOffset\<close> on with copies of the source, as long
  as no copy that starts below \<open>N\<close> ends at \<open>2 ^ 32\<close> or beyond: then the sum of the
  test does not wrap around.
\<close>

lemma CopyRegion_fills:
  assumes "0 < k"
  shows "\<forall>j. unat destOffset + j * unat k < unat N \<longrightarrow>
             unat destOffset + j * unat k + unat k < 2 ^ 32 \<Longrightarrow>
     \<exists>d. CopyRegion dest destOffset N src k = Some d \<and>
       (\<forall>i. d i = (if unat destOffset \<le> i \<and> i < unat N
                   then src ((i - unat destOffset) mod unat k) else dest i))"
proof (induction "unat N - unat destOffset" arbitrary: dest destOffset rule: less_induct)
  case less
  show ?case
  proof (cases "destOffset < N")
    case False
    then have "unat N \<le> unat destOffset" by (simp add: word_less_nat_alt)
    with False show ?thesis by (auto simp: CopyRegion_done)
  next
    case True
    then have lt: "unat destOffset < unat N" by (simp add: word_less_nat_alt)
    from less.prems [rule_format, of 0] lt have "unat destOffset + unat k < 2 ^ 32" by simp
    then have sum: "unat (destOffset + k) = unat destOffset + unat k" by (rule unat_add_nowrap)
    have kpos: "0 < unat k" using assms(1) by (simp add: word_less_nat_alt)
    show ?thesis
    proof (cases "destOffset + k \<ge> N")
      case trim: True
      then have ge: "unat N \<le> unat destOffset + unat k" by (simp add: word_le_nat_alt sum)
      have sub: "unat (N - destOffset) = unat N - unat destOffset"
        using True by (simp add: unat_sub)
      have "CopyRegion dest destOffset N src k =
            CopyRegion (memcpy dest (unat destOffset) src (unat N - unat destOffset)) N N src
              (N - destOffset)"
        using True trim by (subst CopyRegion.simps) (simp add: Let_def sub)
      then have "CopyRegion dest destOffset N src k =
            Some (memcpy dest (unat destOffset) src (unat N - unat destOffset))"
        by (simp add: CopyRegion_done)
      moreover have "(i - unat destOffset) mod unat k = i - unat destOffset"
        if "unat destOffset \<le> i" "i < unat N" for i
        using that ge by simp
      ultimately show ?thesis using lt by (auto simp: memcpy_def)
    next
      case False
      then have nge: "unat destOffset + unat k < unat N" by (simp add: word_le_nat_alt sum)
      let ?dest' = "memcpy dest (unat destOffset) src (unat k)"
      have step: "CopyRegion dest destOffset N src k = CopyRegion ?dest' (destOffset + k) N src k"
        using True False by (subst CopyRegion.simps) (simp add: Let_def)
      have m: "unat N - unat (destOffset + k) < unat N - unat destOffset"
        using lt kpos by (simp add: sum)
      have nowrap: "\<forall>j. unat (destOffset + k) + j * unat k < unat N \<longrightarrow>
                        unat (destOffset + k) + j * unat k + unat k < 2 ^ 32"
      proof (intro allI impI)
        fix j
        assume "unat (destOffset + k) + j * unat k < unat N"
        then have "unat destOffset + Suc j * unat k < unat N" by (simp add: sum)
        from less.prems [rule_format, OF this]
        show "unat (destOffset + k) + j * unat k + unat k < 2 ^ 32" by (simp add: sum)
      qed
      from less.hyps [OF m nowrap] obtain d where
        d: "CopyRegion ?dest' (destOffset + k) N src k = Some d"
        "\<forall>i. d i = (if unat (destOffset + k) \<le> i \<and> i < unat N
                    then src ((i - unat (destOffset + k)) mod unat k) else ?dest' i)"
        by blast
      have sh: "(i - (unat destOffset + unat k)) mod unat k = (i - unat destOffset) mod unat k"
        if "unat destOffset + unat k \<le> i" for i
      proof -
        have "i - unat destOffset = (i - (unat destOffset + unat k)) + unat k" using that by simp
        then show ?thesis by (metis mod_add_self2)
      qed
      have "\<forall>i. d i = (if unat destOffset \<le> i \<and> i < unat N
                       then src ((i - unat destOffset) mod unat k) else dest i)"
        using d(2) nge sh by (auto simp: memcpy_def sum)
      with d(1) step show ?thesis by simp
    qed
  qed
qed

lemma CopyRegion_no_progress:
  assumes "CopyRegion dest destOffset destSize src srcSize = Some y"
  shows "\<not> (destOffset < destSize \<and> srcSize = 0)"
  by (rule CopyRegion.raw_induct [where P = "\<lambda>dest destOffset destSize src srcSize y.
        \<not> (destOffset < destSize \<and> srcSize = 0)", OF _ assms])
    (auto simp: Let_def split: if_splits)

lemma word32_half_twice: "(0x80000000 :: UINT32) + 0x80000000 = 0"
  by simp

lemma CopyRegion_wraps:
  assumes "CopyRegion dest destOffset destSize src srcSize = Some y"
  shows "\<not> (srcSize = 0x80000000 \<and> 0x80000000 < destSize \<and>
            (destOffset = 0 \<or> destOffset = 0x80000000))"
proof (rule CopyRegion.raw_induct [where P = "\<lambda>dest destOffset destSize src srcSize y.
        \<not> (srcSize = 0x80000000 \<and> 0x80000000 < destSize \<and>
            (destOffset = 0 \<or> destOffset = 0x80000000))", OF _ assms])
  fix f and dest src y :: bytes and destOffset destSize srcSize :: UINT32
  assume IH: "\<And>dest destOffset destSize src srcSize y.
      f dest destOffset destSize src srcSize = Some y \<Longrightarrow>
      \<not> (srcSize = 0x80000000 \<and> 0x80000000 < destSize \<and>
         (destOffset = 0 \<or> destOffset = 0x80000000))"
    and body: "(if destOffset < destSize then
        (let srcSize' = (if destOffset + srcSize \<ge> destSize then destSize - destOffset else srcSize)
         in f (memcpy dest (unat destOffset) src (unat srcSize')) (destOffset + srcSize')
              destSize src srcSize')
      else Some dest) = Some y"
  show "\<not> (srcSize = 0x80000000 \<and> 0x80000000 < destSize \<and>
            (destOffset = 0 \<or> destOffset = 0x80000000))"
  proof
    assume a: "srcSize = 0x80000000 \<and> 0x80000000 < destSize \<and>
            (destOffset = 0 \<or> destOffset = 0x80000000)"
    then have s: "srcSize = 0x80000000" and d: "0x80000000 < destSize"
      and o: "destOffset = 0 \<or> destOffset = 0x80000000" by simp_all
    from d have pos: "0 < destSize" by (simp add: word_less_nat_alt)
    have next_o: "destOffset + srcSize = 0 \<or> destOffset + srcSize = 0x80000000"
      using o s word32_half_twice by auto
    have lt: "destOffset < destSize" using o d pos by auto
    have notrim: "\<not> destSize \<le> destOffset + srcSize" using next_o d pos by auto
    from body lt notrim
    have "f (memcpy dest (unat destOffset) src (unat srcSize)) (destOffset + srcSize)
            destSize src srcSize = Some y"
      by (simp add: Let_def)
    from IH [OF this] s d next_o show False by simp
  qed
qed

lemma tiles_within_range:
  fixes off k n :: nat
  assumes "0 < k" and "off + k * ((n - off + k - 1) div k) < 2 ^ 32"
  shows "\<forall>j. off + j * k < n \<longrightarrow> off + j * k + k < 2 ^ 32"
proof (intro allI impI)
  fix j
  assume "off + j * k < n"
  then have "Suc j * k \<le> n - off + k - 1" by simp
  then have "Suc j \<le> (n - off + k - 1) div k"
    using assms(1) by (simp only: less_eq_div_iff_mult_less_eq)
  then have "Suc j * k \<le> ((n - off + k - 1) div k) * k"
    by (rule mult_le_mono1)
  with assms(2) show "off + j * k + k < 2 ^ 32"
    by (simp add: mult.commute)
qed




text \<open>
  Claim C9, as amended: \<open>CopyRegion\<close> returns for every call with \<open>srcSize > 0\<close> in
  which the end of the last copy (\<open>destOffset\<close> plus the length left to fill, rounded up
  to a whole number of copies) is below \<open>2 ^ 32\<close>. With \<open>srcSize = 0\<close> it returns
  exactly when the loop is not entered (\<open>destOffset \<ge> destSize\<close>); and whenever the loop
  is not entered it returns at once, with the destination as it was.
\<close>

theorem CopyRegion_returns:
  "(0 < srcSize \<and>
    unat destOffset +
      unat srcSize * ((unat destSize - unat destOffset + unat srcSize - 1) div unat srcSize)
      < 2 ^ 32 \<longrightarrow>
      (\<exists>d. CopyRegion dest destOffset destSize src srcSize = Some d)) \<and>
   (srcSize = 0 \<longrightarrow>
      ((\<exists>d. CopyRegion dest destOffset destSize src srcSize = Some d) \<longleftrightarrow>
       destSize \<le> destOffset)) \<and>
   (destSize \<le> destOffset \<longrightarrow> CopyRegion dest destOffset destSize src srcSize = Some dest)"
proof (intro conjI impI)
  assume a: "0 < srcSize \<and>
    unat destOffset +
      unat srcSize * ((unat destSize - unat destOffset + unat srcSize - 1) div unat srcSize)
      < 2 ^ 32"
  then have "0 < unat srcSize" by (simp add: word_less_nat_alt)
  with a have "\<forall>j. unat destOffset + j * unat srcSize < unat destSize \<longrightarrow>
                 unat destOffset + j * unat srcSize + unat srcSize < 2 ^ 32"
    by (intro tiles_within_range) simp_all
  with a show "\<exists>d. CopyRegion dest destOffset destSize src srcSize = Some d"
    using CopyRegion_fills [of srcSize destOffset destSize dest src] by blast
next
  assume z: "srcSize = 0"
  show "(\<exists>d. CopyRegion dest destOffset destSize src srcSize = Some d) \<longleftrightarrow>
        destSize \<le> destOffset"
  proof
    assume "\<exists>d. CopyRegion dest destOffset destSize src srcSize = Some d"
    then show "destSize \<le> destOffset"
      using CopyRegion_no_progress [of dest destOffset destSize src srcSize] z by fastforce
  next
    assume "destSize \<le> destOffset"
    then show "\<exists>d. CopyRegion dest destOffset destSize src srcSize = Some d"
      by (simp add: CopyRegion_done)
  qed
next
  assume "destSize \<le> destOffset"
  then show "CopyRegion dest destOffset destSize src srcSize = Some dest"
    by (simp add: CopyRegion_done)
qed

theorem CopyRegion_returns_witness:
  "(0 :: UINT32) < 3 \<and>
   unat (0 :: UINT32) +
     unat (3 :: UINT32) * ((unat (4 :: UINT32) - unat (0 :: UINT32) + unat (3 :: UINT32) - 1) div
        unat (3 :: UINT32)) < 2 ^ 32 \<and>
   (\<exists>d. CopyRegion ex_mem 0 4 ex_src 3 = Some d) \<and>
   (4 :: UINT32) \<le> 4 \<and>
   CopyRegion ex_mem 4 4 ex_src 0 = Some ex_mem \<and>
   CopyRegion ex_mem 0 4 ex_src 0 = None"
proof -
  have "\<exists>d. CopyRegion ex_mem 0 4 ex_src 3 = Some d"
    using CopyRegion_returns [of 3 0 4 ex_mem ex_src] by simp
  moreover have "CopyRegion ex_mem 4 4 ex_src 0 = Some ex_mem"
    using CopyRegion_returns [of 0 4 4 ex_mem ex_src] by simp
  moreover have "CopyRegion ex_mem 0 4 ex_src 0 = None"
    using CopyRegion_returns [of 0 0 4 ex_mem ex_src]
    by (cases "CopyRegion ex_mem 0 4 ex_src 0") simp_all
  ultimately show ?thesis by simp
qed

text \<open>
  Neither half of the claim holds as it is stated. With \<open>srcSize = 0\<close> and nothing to
  fill, the loop is not entered and the call returns. With \<open>srcSize = 2 ^ 31\<close> and a
  destination of \<open>2 ^ 32 - 1\<close> bytes, \<open>destOffset\<close> goes from 0 to \<open>2 ^ 31\<close> and wraps
  around to 0 again: the call does not return.
\<close>

theorem CopyRegion_termination_fails_both_ways:
  "CopyRegion ex_mem 0 0 ex_src 0 = Some ex_mem \<and>
   (0 :: UINT32) < 0x80000000 \<and>
   CopyRegion ex_mem 0 0xFFFFFFFF ex_src 0x80000000 = None"
proof -
  have "CopyRegion ex_mem 0 0 ex_src 0 = Some ex_mem"
    by (simp add: CopyRegion_done)
  moreover have "CopyRegion ex_mem 0 0xFFFFFFFF ex_src 0x80000000 = None"
    using CopyRegion_wraps [of ex_mem 0 "0xFFFFFFFF" ex_src "0x80000000"]
    by (cases "CopyRegion ex_mem 0 0xFFFFFFFF ex_src 0x80000000") simp_all
  ultimately show ?thesis by simp
qed

section \<open>Properties of ByteSwap\<close>

lemma ByteSwap_loop_done: "\<not> i < size' \<Longrightarrow> ByteSwap_loop buf size' i = Some buf"
  by (subst ByteSwap_loop.simps) simp

lemma ByteSwap_loop_step:
  "i < size' \<Longrightarrow> ByteSwap_loop buf size' i =
     ByteSwap_loop (buf(unat i := buf (unat (i + 1)), unat (i + 1) := buf (unat i))) size' (i + 2)"
  by (subst ByteSwap_loop.simps) (simp add: Let_def)

lemma ByteSwap_loop_eq:
  assumes "size' \<noteq> 0xFFFFFFFF" and "n = 2 * ((unat size' + 1) div 2)"
  shows "even i \<Longrightarrow> i \<le> n \<Longrightarrow>
     ByteSwap_loop buf size' (of_nat i) =
       Some (\<lambda>a. if i \<le> a \<and> a < n then (if even a then buf (Suc a) else buf (a - 1)) else buf a)"
proof (induction "n - i" arbitrary: i buf rule: less_induct)
  case less
  have "unat size' \<noteq> unat (0xFFFFFFFF :: UINT32)" using assms(1) by (simp only: word_unat_eq_iff) simp
  moreover have "unat size' < 2 ^ 32" using unsigned_less [of size'] by simp
  ultimately have sz: "unat size' < 4294967295" by simp
  then have n: "n < 4294967296" "unat size' \<le> n" "n \<le> unat size' + 1" using assms(2) by presburger+
  have ui: "unat (of_nat i :: UINT32) = i" using less.prems(2) n(1) by (simp add: unat_of_nat)
  show ?case
  proof (cases "i < n")
    case False
    with less.prems have "i = n" by simp
    then have "\<not> (of_nat i :: UINT32) < size'" using n(2) ui by (simp add: word_less_nat_alt)
    with False show ?thesis by (auto simp: ByteSwap_loop_done fun_eq_iff)
  next
    case True
    have "even n" using assms(2) by simp
    with True less.prems(1) have i2: "i + 2 \<le> n" by presburger
    have "i \<noteq> unat size' + 1" using True n(3) by simp
    have "i < unat size'"
    proof (rule ccontr)
      assume "\<not> i < unat size'"
      with True n(3) have "i = unat size'" by simp
      with i2 n(3) show False by simp
    qed
    then have lt: "(of_nat i :: UINT32) < size'" using ui by (simp add: word_less_nat_alt)
    have "(of_nat (Suc i) :: UINT32) = of_nat i + 1" by simp
    moreover have "Suc i < 2 ^ LENGTH(32)" using i2 n(1) by simp
    ultimately have u1: "unat (of_nat i + 1 :: UINT32) = Suc i" by (rule of_nat_inverse)
    have w2: "(of_nat i + 2 :: UINT32) = of_nat (i + 2)" by simp
    let ?b = "buf(i := buf (Suc i), Suc i := buf i)"
    have "ByteSwap_loop buf size' (of_nat i) = ByteSwap_loop ?b size' (of_nat (i + 2))"
      using ByteSwap_loop_step [OF lt, of buf] by (simp only: ui u1 w2)
    also have "\<dots> = Some (\<lambda>a. if i + 2 \<le> a \<and> a < n
                        then (if even a then ?b (Suc a) else ?b (a - 1)) else ?b a)"
      using less.hyps [of "i + 2" ?b] True i2 less.prems(1) by simp
    also have "(\<lambda>a. if i + 2 \<le> a \<and> a < n
                        then (if even a then ?b (Suc a) else ?b (a - 1)) else ?b a) =
               (\<lambda>a. if i \<le> a \<and> a < n then (if even a then buf (Suc a) else buf (a - 1)) else buf a)"
    proof
      fix a
      consider "a < i" | "a = i" | "a = Suc i" | "a = i + 2" | "i + 3 \<le> a" by linarith
      then show "(if i + 2 \<le> a \<and> a < n
                        then (if even a then ?b (Suc a) else ?b (a - 1)) else ?b a) =
               (if i \<le> a \<and> a < n then (if even a then buf (Suc a) else buf (a - 1)) else buf a)"
      proof cases
        case 1 then show ?thesis by simp
      next
        case 2 then show ?thesis using True less.prems(1) by simp
      next
        case 3 then show ?thesis using i2 less.prems(1) by simp
      next
        case 4 then show ?thesis using less.prems(1) by simp
      next
        case 5 then show ?thesis by auto
      qed
    qed
    finally show ?thesis .
  qed
qed

lemma ByteSwap_eq:
  assumes "size' \<noteq> 0xFFFFFFFF"
  shows "ByteSwap buf size' = Some (swap_pairs (2 * ((unat size' + 1) div 2)) buf)"
  using ByteSwap_loop_eq [OF assms refl, of 0 buf] by (simp add: ByteSwap_def swap_pairs_def)

lemma swap_pairs_twice: "even n \<Longrightarrow> swap_pairs n (swap_pairs n buf) = buf"
proof
  fix a
  assume n: "even n"
  show "swap_pairs n (swap_pairs n buf) a = buf a"
  proof (cases "a < n")
    case False then show ?thesis by (simp add: swap_pairs_def)
  next
    case True
    show ?thesis
    proof (cases "even a")
      case e: True
      with True n have "Suc a < n" by presburger
      with True e show ?thesis by (simp add: swap_pairs_def)
    next
      case o: False
      then have "0 < a" "even (a - 1)" "Suc (a - 1) = a" by (auto elim: oddE)
      moreover from True have "a - 1 < n" by simp
      ultimately show ?thesis using True o by (simp add: swap_pairs_def)
    qed
  qed
qed

lemma ByteSwap_loop_wraps:
  assumes "ByteSwap_loop buf size' i = Some y"
  shows "\<not> (size' = 0xFFFFFFFF \<and> even i)"
proof (rule ByteSwap_loop.raw_induct [where P = "\<lambda>buf size' i y. \<not> (size' = 0xFFFFFFFF \<and> even i)",
      OF _ assms])
  fix f and buf y :: bytes and size' i :: UINT32
  assume IH: "\<And>buf size' i y. f buf size' i = Some y \<Longrightarrow> \<not> (size' = 0xFFFFFFFF \<and> even i)"
    and body: "(if i < size' then
        (let x = buf (unat (i + 0));
             buf = buf(unat (i + 0) := buf (unat (i + 1)));
             buf = buf(unat (i + 1) := x)
         in f buf size' (i + 2))
      else Some buf) = Some y"
  show "\<not> (size' = 0xFFFFFFFF \<and> even i)"
  proof
    assume a: "size' = 0xFFFFFFFF \<and> even i"
    have "odd (0xFFFFFFFF :: UINT32)" by simp
    with a have "i \<noteq> 0xFFFFFFFF" by auto
    then have "unat i \<noteq> unat (0xFFFFFFFF :: UINT32)" by (simp only: word_unat_eq_iff) simp
    moreover have "unat i < 2 ^ 32" using unsigned_less [of i] by simp
    ultimately have "i < size'" using a by (simp add: word_less_nat_alt)
    with body have "f (buf(unat i := buf (unat (i + 1)), unat (i + 1) := buf (unat i))) size' (i + 2) = Some y"
      by (simp add: Let_def)
    from IH [OF this] a show False by simp
  qed
qed

text \<open>
  Claim C8, as amended: for every buffer and every size other than \<open>2 ^ 32 - 1\<close>,
  \<open>ByteSwap\<close> returns, and applied again with the same size it gives the buffer back.
\<close>

theorem ByteSwap_involution:
  assumes "size' \<noteq> 0xFFFFFFFF"
  shows "\<exists>b. ByteSwap buf size' = Some b \<and> ByteSwap b size' = Some buf"
  using assms by (simp add: ByteSwap_eq swap_pairs_twice)

theorem ByteSwap_involution_witness:
  "(3 :: UINT32) \<noteq> 0xFFFFFFFF \<and>
   ByteSwap ex_src 3 = Some (ex_src(0 := 9, 1 := 7)) \<and>
   ByteSwap (ex_src(0 := 9, 1 := 7)) 3 = Some ex_src"
proof -
  have n: "(3 :: UINT32) \<noteq> 0xFFFFFFFF" by simp
  have s: "swap_pairs (2 * ((unat (3 :: UINT32) + 1) div 2)) ex_src = ex_src(0 := 9, 1 := 7)"
    by (auto simp: swap_pairs_def ex_src_def fun_eq_iff)
  from ByteSwap_involution [OF n, of ex_src] show ?thesis
    unfolding ByteSwap_eq [OF n] s by simp
qed

text \<open>
  With the size \<open>2 ^ 32 - 1\<close> the index \<open>i\<close> goes through the even numbers, all of them
  below the size, and wraps around from \<open>2 ^ 32 - 2\<close> to 0: the call does not return.
\<close>

theorem ByteSwap_largest_size_never_returns:
  "ByteSwap ex_src 0xFFFFFFFF = None"
  using ByteSwap_loop_wraps [of ex_src "0xFFFFFFFF" 0]
  by (cases "ByteSwap ex_src 0xFFFFFFFF") (simp_all add: ByteSwap_def)

section \<open>Properties of the placement loops\<close>

lemma LoadROM_group_done:
  "\<not> j < gs \<Longrightarrow> LoadROM_group mem p destIdx buf srcIdx gs j = (mem, srcIdx)"
  by (subst LoadROM_group.simps) simp

lemma LoadROM_group_step:
  "j < gs \<Longrightarrow> LoadROM_group mem p destIdx buf srcIdx gs j =
     LoadROM_group (mem(p + unat (destIdx + j) := buf (unat srcIdx))) p destIdx buf (srcIdx + 1)
       gs (j + 1)"
  by (subst LoadROM_group.simps) simp

lemma LoadROM_group_snd:
  "j \<le> gs \<Longrightarrow> snd (LoadROM_group mem p destIdx buf srcIdx gs j) = srcIdx + (gs - j)"
proof (induction mem p destIdx buf srcIdx gs j rule: LoadROM_group.induct)
  case (1 mem p destIdx buf srcIdx gs j)
  show ?case
  proof (cases "j < gs")
    case False
    with 1(2) have "j = gs" by simp
    with False show ?thesis by (simp add: LoadROM_group_done)
  next
    case True
    then have "j + 1 \<le> gs" by (rule inc_le)
    from 1(1) [OF True this] True show ?thesis by (simp add: LoadROM_group_step fun_upd_def)
  qed
qed

lemma LoadROM_group_eq:
  assumes "unat destIdx + unat gs \<le> 2 ^ 32" and "unat srcIdx + (unat gs - unat j) < 2 ^ 32"
    and "j \<le> gs"
  shows "fst (LoadROM_group mem p destIdx buf srcIdx gs j) =
     (\<lambda>a. if p + unat destIdx + unat j \<le> a \<and> a < p + unat destIdx + unat gs
           then buf (unat srcIdx + (a - (p + unat destIdx + unat j))) else mem a)"
  using assms
proof (induction mem p destIdx buf srcIdx gs j rule: LoadROM_group.induct)
  case (1 mem p destIdx buf srcIdx gs j)
  show ?case
  proof (cases "j < gs")
    case False
    with 1(4) have "j = gs" by simp
    with False show ?thesis by (auto simp: LoadROM_group_done fun_eq_iff)
  next
    case True
    then have lt: "unat j < unat gs" by (simp add: word_less_nat_alt)
    have j1: "unat (j + 1) = unat j + 1"
      using unat_add_nowrap [of j 1] lt unat_lt32 [of gs] by simp
    have s1: "unat (srcIdx + 1) = unat srcIdx + 1"
      using unat_add_nowrap [of srcIdx 1] lt 1(3) by simp
    have dj: "unat (destIdx + j) = unat destIdx + unat j"
      using unat_add_nowrap [of destIdx j] lt 1(2) by simp
    have le: "j + 1 \<le> gs" using True by (rule inc_le)
    have "unat (srcIdx + 1) + (unat gs - unat (j + 1)) < 2 ^ 32" using 1(3) lt by (simp add: j1 s1)
    then have "fst (LoadROM_group (mem(p + unat (destIdx + j) := buf (unat srcIdx))) p destIdx buf
                 (srcIdx + 1) gs (j + 1)) =
      (\<lambda>a. if p + unat destIdx + unat (j + 1) \<le> a \<and> a < p + unat destIdx + unat gs
            then buf (unat (srcIdx + 1) + (a - (p + unat destIdx + unat (j + 1))))
            else (mem(p + unat (destIdx + j) := buf (unat srcIdx))) a)"
      by (rule 1(1) [OF True 1(2) _ le])
    then have "fst (LoadROM_group mem p destIdx buf srcIdx gs j) =
      (\<lambda>a. if p + unat destIdx + unat (j + 1) \<le> a \<and> a < p + unat destIdx + unat gs
            then buf (unat (srcIdx + 1) + (a - (p + unat destIdx + unat (j + 1))))
            else (mem(p + unat (destIdx + j) := buf (unat srcIdx))) a)"
      by (simp only: LoadROM_group_step [OF True])
    also have "\<dots> = (\<lambda>a. if p + unat destIdx + unat j \<le> a \<and> a < p + unat destIdx + unat gs
           then buf (unat srcIdx + (a - (p + unat destIdx + unat j))) else mem a)"
      using lt by (auto simp: fun_eq_iff Suc_diff_Suc j1 s1 dj)
    finally show ?thesis .
  qed
qed

lemma LoadROM_group_memcpy:
  assumes "unat destIdx + unat gs \<le> 2 ^ 32" and "unat srcIdx + unat gs < 2 ^ 32"
  shows "LoadROM_group mem p destIdx buf srcIdx gs 0 =
     (memcpy mem (p + unat destIdx) (\<lambda>i. buf (unat srcIdx + i)) (unat gs), srcIdx + gs)"
proof -
  have "fst (LoadROM_group mem p destIdx buf srcIdx gs 0) =
          memcpy mem (p + unat destIdx) (\<lambda>i. buf (unat srcIdx + i)) (unat gs)"
    using LoadROM_group_eq [of destIdx gs srcIdx 0 mem p buf] assms
    by (simp add: memcpy_def fun_eq_iff)
  moreover have "snd (LoadROM_group mem p destIdx buf srcIdx gs 0) = srcIdx + gs"
    by (simp add: LoadROM_group_snd)
  ultimately show ?thesis by (simp add: prod_eq_iff)
qed

lemma LoadROM_place_done:
  "\<not> srcIdx < fileSize R \<Longrightarrow> LoadROM_place R buf p mem srcIdx destIdx = Some mem"
  by (subst LoadROM_place.simps) simp

lemma LoadROM_place_unfold:
  "srcIdx < fileSize R \<Longrightarrow>
   LoadROM_place R buf p mem srcIdx destIdx =
     LoadROM_place R buf p (fst (LoadROM_group mem p destIdx buf srcIdx (groupSize R) 0))
       (srcIdx + groupSize R) (destIdx + stride R)"
  by (subst LoadROM_place.simps) (simp add: LoadROM_group_snd)

lemma LoadROM_place_step:
  assumes "srcIdx < fileSize R" and "unat destIdx + unat (groupSize R) \<le> 2 ^ 32"
    and "unat srcIdx + unat (groupSize R) < 2 ^ 32"
  shows "LoadROM_place R buf p mem srcIdx destIdx =
     LoadROM_place R buf p
       (memcpy mem (p + unat destIdx) (\<lambda>i. buf (unat srcIdx + i)) (unat (groupSize R)))
       (srcIdx + groupSize R) (destIdx + stride R)"
  using LoadROM_place_unfold [OF assms(1)] LoadROM_group_memcpy [OF assms(2,3)] by simp

lemma LoadROM_place_returns:
  assumes "0 < groupSize R" and "fileSize R < 0x80000000"
  shows "srcIdx = 0 \<or> groupSize R \<le> srcIdx \<Longrightarrow>
         \<exists>mem'. LoadROM_place R buf p mem srcIdx destIdx = Some mem'"
proof (induction "unat (fileSize R) - unat srcIdx" arbitrary: mem srcIdx destIdx rule: less_induct)
  case less
  show ?case
  proof (cases "srcIdx < fileSize R")
    case False
    then show ?thesis by (simp add: LoadROM_place_done)
  next
    case True
    then have lt: "unat srcIdx < unat (fileSize R)" by (simp add: word_less_nat_alt)
    have F: "unat (fileSize R) < 2147483648" using assms(2) by (simp add: word_less_nat_alt)
    have g: "0 < unat (groupSize R)" using assms(1) by (simp add: word_less_nat_alt)
    have "unat (groupSize R) \<le> unat srcIdx" if "srcIdx \<noteq> 0"
      using that less.prems by (simp add: word_le_nat_alt)
    then have "unat srcIdx + unat (groupSize R) < 2 ^ 32"
      using lt F unat_lt32 [of "groupSize R"] by (cases "srcIdx = 0") auto
    then have sum: "unat (srcIdx + groupSize R) = unat srcIdx + unat (groupSize R)"
      by (rule unat_add_nowrap)
    then have "groupSize R \<le> srcIdx + groupSize R" by (simp add: word_le_nat_alt)
    moreover have "unat (fileSize R) - unat (srcIdx + groupSize R) < unat (fileSize R) - unat srcIdx"
      using lt g by (simp add: sum)
    ultimately show ?thesis
      using less.hyps [of "srcIdx + groupSize R"] True by (simp add: LoadROM_place_unfold)
  qed
qed

lemma LoadROM_place_no_progress:
  assumes "LoadROM_place R buf p mem srcIdx destIdx = Some y"
  shows "\<not> (srcIdx < fileSize R \<and> groupSize R = 0)"
proof (rule LoadROM_place.raw_induct [where P = "\<lambda>R buf p mem srcIdx destIdx y.
        \<not> (srcIdx < fileSize R \<and> groupSize R = 0)", OF _ assms])
  fix f R and buf mem y :: bytes and p :: nat and srcIdx destIdx :: UINT32
  assume IH: "\<And>R buf p mem srcIdx destIdx y. f R buf p mem srcIdx destIdx = Some y \<Longrightarrow>
                \<not> (srcIdx < fileSize R \<and> groupSize R = 0)"
    and body: "(if srcIdx < fileSize R then
        f R buf p
          (fst (LoadROM_group mem p destIdx buf srcIdx (groupSize R) 0))
          (snd (LoadROM_group mem p destIdx buf srcIdx (groupSize R) 0))
          (destIdx + stride R)
      else Some mem) = Some y"
  show "\<not> (srcIdx < fileSize R \<and> groupSize R = 0)"
  proof
    assume a: "srcIdx < fileSize R \<and> groupSize R = 0"
    then have "f R buf p (fst (LoadROM_group mem p destIdx buf srcIdx (groupSize R) 0)) srcIdx
                 (destIdx + stride R) = Some y"
      using body by (simp add: LoadROM_group_snd)
    from IH [OF this] a show False by simp
  qed
qed

text \<open>
  Claim C6, as amended: when \<open>groupSize\<close> and \<open>stride\<close> both equal the length
  \<open>fileSize\<close> of the decoded source, and \<open>offset + fileSize\<close> does not exceed \<open>2 ^ 32\<close>,
  the placement loop does what one contiguous copy of the source to
  \<open>dest[offset .. offset + fileSize)\<close> does (\<open>dest\<close> being the region at address \<open>p\<close>).
\<close>

theorem LoadROM_place_contiguous:
  assumes "groupSize R = fileSize R" and "stride R = fileSize R"
    and "unat (offset R) + unat (fileSize R) \<le> 2 ^ 32"
  shows "LoadROM_place R buf p mem 0 (offset R) =
           Some (memcpy mem (p + unat (offset R)) buf (unat (fileSize R)))"
proof (cases "0 < fileSize R")
  case False
  then have "fileSize R = 0" by (simp add: word_less_nat_alt word_unat_eq_iff)
  then have "memcpy mem (p + unat (offset R)) buf (unat (fileSize R)) = mem"
    by (auto simp: memcpy_def fun_eq_iff)
  with False show ?thesis by (simp add: LoadROM_place_done)
next
  case True
  have "LoadROM_place R buf p mem 0 (offset R) =
        LoadROM_place R buf p
          (memcpy mem (p + unat (offset R)) (\<lambda>i. buf (unat (0 :: UINT32) + i)) (unat (groupSize R)))
          (0 + groupSize R) (offset R + stride R)"
    using True assms(3) unat_lt32 [of "fileSize R"]
    by (intro LoadROM_place_step) (simp_all add: assms(1))
  then show ?thesis
    using assms(1) by (simp add: LoadROM_place_done)
qed

theorem LoadROM_place_contiguous_witness:
  "groupSize rom_C6 = fileSize rom_C6 \<and> stride rom_C6 = fileSize rom_C6 \<and>
   unat (offset rom_C6) + unat (fileSize rom_C6) \<le> 2 ^ 32 \<and>
   LoadROM_place rom_C6 ex_src 10 ex_mem 0 (offset rom_C6) = Some (memcpy ex_mem 12 ex_src 3)"
  using LoadROM_place_contiguous [of rom_C6 ex_src 10 ex_mem]
  by (simp add: rom_C6_def)

text \<open>
  The index \<open>destIdx + j\<close> is a sum of the type \<open>unsigned\<close>. An image of two bytes in one
  group at offset \<open>2 ^ 32 - 1\<close> has its second byte at index 0 of the region, where a
  contiguous copy leaves the byte as it was.
\<close>

theorem LoadROM_place_contiguous_wraps:
  "groupSize rom_C6_top = fileSize rom_C6_top \<and> stride rom_C6_top = fileSize rom_C6_top \<and>
   LoadROM_place rom_C6_top ex_src 0 ex_mem 0 (offset rom_C6_top) =
     Some (ex_mem(4294967295 := 7, 0 := 9)) \<and>
   LoadROM_place rom_C6_top ex_src 0 ex_mem 0 (offset rom_C6_top) \<noteq>
     Some (memcpy ex_mem (0 + unat (offset rom_C6_top)) ex_src (unat (fileSize rom_C6_top)))"
proof -
  have r: "LoadROM_place rom_C6_top ex_src 0 ex_mem 0 (offset rom_C6_top) =
     Some (ex_mem(4294967295 := 7, 0 := 9))"
    by (simp add: rom_C6_top_def LoadROM_place_unfold LoadROM_place_done LoadROM_group_step
        LoadROM_group_done ex_src_def)
  have "(ex_mem(4294967295 := 7, 0 := 9)) 0 \<noteq>
        memcpy ex_mem (0 + unat (offset rom_C6_top)) ex_src (unat (fileSize rom_C6_top)) 0"
    by (simp add: memcpy_def rom_C6_top_def ex_mem_def)
  then have "ex_mem(4294967295 := 7, 0 := 9) \<noteq>
        memcpy ex_mem (0 + unat (offset rom_C6_top)) ex_src (unat (fileSize rom_C6_top))"
    by metis
  with r show ?thesis by (simp add: rom_C6_top_def)
qed

lemma LoadROM_place_interleave:
  assumes "groupSize R = 1" and "stride R = 2"
  shows "\<forall>i. unat srcIdx + i < unat (fileSize R) \<longrightarrow> unat destIdx + 2 * i < 2 ^ 32 \<Longrightarrow>
     LoadROM_place R buf p mem srcIdx destIdx =
     Some (\<lambda>a. if p + unat destIdx \<le> a \<and> even (a - (p + unat destIdx)) \<and>
                   unat srcIdx + (a - (p + unat destIdx)) div 2 < unat (fileSize R)
                then buf (unat srcIdx + (a - (p + unat destIdx)) div 2) else mem a)"
proof (induction "unat (fileSize R) - unat srcIdx" arbitrary: mem srcIdx destIdx rule: less_induct)
  case less
  show ?case
  proof (cases "srcIdx < fileSize R")
    case False
    then have "unat (fileSize R) \<le> unat srcIdx" by (simp add: word_less_nat_alt)
    with False show ?thesis by (auto simp: LoadROM_place_done fun_eq_iff)
  next
    case True
    then have lt: "unat srcIdx < unat (fileSize R)" by (simp add: word_less_nat_alt)
    have s1: "unat (srcIdx + 1) = unat srcIdx + 1"
      using unat_add_nowrap [of srcIdx 1] lt unat_lt32 [of "fileSize R"] by simp
    let ?mem = "memcpy mem (p + unat destIdx) (\<lambda>i. buf (unat srcIdx + i)) 1"
    have step: "LoadROM_place R buf p mem srcIdx destIdx =
                LoadROM_place R buf p ?mem (srcIdx + 1) (destIdx + 2)"
      using LoadROM_place_step [of srcIdx R destIdx buf p mem] True lt
        unat_lt32 [of destIdx] unat_lt32 [of "fileSize R"]
      by (simp add: assms)
    show ?thesis
    proof (cases "unat srcIdx + 1 = unat (fileSize R)")
      case last: True
      then have "\<not> srcIdx + 1 < fileSize R" by (simp add: word_less_nat_alt s1)
      then have "LoadROM_place R buf p mem srcIdx destIdx = Some ?mem"
        using step by (simp add: LoadROM_place_done)
      moreover have "?mem = (\<lambda>a. if p + unat destIdx \<le> a \<and> even (a - (p + unat destIdx)) \<and>
                   unat srcIdx + (a - (p + unat destIdx)) div 2 < unat (fileSize R)
                then buf (unat srcIdx + (a - (p + unat destIdx)) div 2) else mem a)"
      proof
        fix a
        consider "a < p + unat destIdx" | "a = p + unat destIdx" | "a = p + unat destIdx + 1"
          | "p + unat destIdx + 2 \<le> a"
          by linarith
        then show "?mem a = (if p + unat destIdx \<le> a \<and> even (a - (p + unat destIdx)) \<and>
                   unat srcIdx + (a - (p + unat destIdx)) div 2 < unat (fileSize R)
                then buf (unat srcIdx + (a - (p + unat destIdx)) div 2) else mem a)"
        proof cases
          case 1 then show ?thesis by (simp add: memcpy_def)
        next
          case 2 then show ?thesis using lt by (simp add: memcpy_def)
        next
          case 3 then show ?thesis by (simp add: memcpy_def)
        next
          case 4
          then obtain b where b: "a = p + unat destIdx + 2 + b" by (metis le_Suc_ex)
          show ?thesis unfolding b using last by (simp add: memcpy_def)
        qed
      qed
      ultimately show ?thesis by simp
    next
      case more: False
      with lt have lt2: "unat srcIdx + 1 < unat (fileSize R)" by simp
      from less.prems [rule_format, OF this] have "unat destIdx + 2 < 2 ^ 32" by simp
      then have d2: "unat (destIdx + 2) = unat destIdx + 2"
        using unat_add_nowrap [of destIdx 2] by simp
      have m: "unat (fileSize R) - unat (srcIdx + 1) < unat (fileSize R) - unat srcIdx"
        using lt by (simp add: s1)
      have inv: "\<forall>i. unat (srcIdx + 1) + i < unat (fileSize R) \<longrightarrow>
                     unat (destIdx + 2) + 2 * i < 2 ^ 32"
      proof (intro allI impI)
        fix i
        assume "unat (srcIdx + 1) + i < unat (fileSize R)"
        then have "unat srcIdx + Suc i < unat (fileSize R)" by (simp add: s1)
        from less.prems [rule_format, OF this] show "unat (destIdx + 2) + 2 * i < 2 ^ 32"
          by (simp add: d2)
      qed
      note step
      also have "LoadROM_place R buf p ?mem (srcIdx + 1) (destIdx + 2) =
         Some (\<lambda>a. if p + (unat destIdx + 2) \<le> a \<and> even (a - (p + (unat destIdx + 2))) \<and>
                   unat srcIdx + 1 + (a - (p + (unat destIdx + 2))) div 2 < unat (fileSize R)
                then buf (unat srcIdx + 1 + (a - (p + (unat destIdx + 2))) div 2) else ?mem a)"
        using less.hyps [OF m inv, of ?mem] by (simp only: d2 s1)
      also have "(\<lambda>a. if p + (unat destIdx + 2) \<le> a \<and> even (a - (p + (unat destIdx + 2))) \<and>
                   unat srcIdx + 1 + (a - (p + (unat destIdx + 2))) div 2 < unat (fileSize R)
                then buf (unat srcIdx + 1 + (a - (p + (unat destIdx + 2))) div 2) else ?mem a) =
            (\<lambda>a. if p + unat destIdx \<le> a \<and> even (a - (p + unat destIdx)) \<and>
                   unat srcIdx + (a - (p + unat destIdx)) div 2 < unat (fileSize R)
                then buf (unat srcIdx + (a - (p + unat destIdx)) div 2) else mem a)"
      proof
        fix a
        consider "a < p + unat destIdx" | "a = p + unat destIdx" | "a = p + unat destIdx + 1"
          | "p + unat destIdx + 2 \<le> a"
          by linarith
        then show "(if p + (unat destIdx + 2) \<le> a \<and> even (a - (p + (unat destIdx + 2))) \<and>
                   unat srcIdx + 1 + (a - (p + (unat destIdx + 2))) div 2 < unat (fileSize R)
                then buf (unat srcIdx + 1 + (a - (p + (unat destIdx + 2))) div 2) else ?mem a) =
            (if p + unat destIdx \<le> a \<and> even (a - (p + unat destIdx)) \<and>
                   unat srcIdx + (a - (p + unat destIdx)) div 2 < unat (fileSize R)
                then buf (unat srcIdx + (a - (p + unat destIdx)) div 2) else mem a)"
        proof cases
          case 1 then show ?thesis by (simp add: memcpy_def)
        next
          case 2 then show ?thesis using lt by (simp add: memcpy_def)
        next
          case 3 then show ?thesis by (simp add: memcpy_def)
        next
          case 4
          then obtain b where b: "a = p + unat destIdx + 2 + b" by (metis le_Suc_ex)
          show ?thesis unfolding b by (simp add: memcpy_def)
        qed
      qed
      finally show ?thesis .
    qed
  qed
qed

text \<open>
  Claim C7, as amended: with \<open>groupSize = 1\<close> and \<open>stride = 2\<close>, when every index
  \<open>offset + 2 * i\<close> with \<open>i\<close> below the source length \<open>fileSize\<close> is below \<open>2 ^ 32\<close>,
  the placement loop returns, having written source byte \<open>i\<close> to destination index
  \<open>offset + 2 * i\<close> for every \<open>i\<close> below \<open>fileSize\<close>; the bytes at odd positions from
  \<open>offset\<close> and the bytes outside \<open>[offset, offset + 2 * fileSize)\<close> keep their values
  (\<open>dest\<close> being the region at address \<open>p\<close>).
\<close>

theorem LoadROM_place_every_other_byte:
  assumes "groupSize R = 1" and "stride R = 2"
    and "\<forall>i<unat (fileSize R). unat (offset R) + 2 * i < 2 ^ 32"
  shows "\<exists>mem'. LoadROM_place R buf p mem 0 (offset R) = Some mem' \<and>
           (\<forall>i<unat (fileSize R). mem' (p + (unat (offset R) + 2 * i)) = buf i) \<and>
           (\<forall>k. mem' (p + (unat (offset R) + (2 * k + 1))) = mem (p + (unat (offset R) + (2 * k + 1)))) \<and>
           (\<forall>a. a < p + unat (offset R) \<or> p + (unat (offset R) + 2 * unat (fileSize R)) \<le> a \<longrightarrow>
                mem' a = mem a)"
proof -
  have "\<forall>i. unat (0 :: UINT32) + i < unat (fileSize R) \<longrightarrow> unat (offset R) + 2 * i < 2 ^ 32"
    using assms(3) by simp
  from LoadROM_place_interleave [OF assms(1,2) this, of buf p mem] show ?thesis by auto
qed

theorem LoadROM_place_every_other_byte_witness:
  "groupSize rom_C7 = 1 \<and> stride rom_C7 = 2 \<and>
   unat (offset rom_C7) + 2 * unat (fileSize rom_C7) < 2 ^ 32 \<and>
   (\<exists>mem'. LoadROM_place rom_C7 ex_src 0 ex_mem 0 (offset rom_C7) = Some mem' \<and>
      mem' 1 = 7 \<and> mem' 3 = 9 \<and> mem' 2 = 0 \<and> mem' 4 = 0 \<and> mem' 0 = 0 \<and> mem' 5 = 0)"
proof -
  have g: "groupSize rom_C7 = 1" and s: "stride rom_C7 = 2"
    and b: "unat (offset rom_C7) + 2 * unat (fileSize rom_C7) < 2 ^ 32"
    by (simp_all add: rom_C7_def)
  from b have b': "\<forall>i<unat (fileSize rom_C7). unat (offset rom_C7) + 2 * i < 2 ^ 32" by simp
  from LoadROM_place_every_other_byte [OF g s b', of ex_src 0 ex_mem]
  obtain mem' where m: "LoadROM_place rom_C7 ex_src 0 ex_mem 0 (offset rom_C7) = Some mem'"
    "\<forall>i<unat (fileSize rom_C7). mem' (0 + (unat (offset rom_C7) + 2 * i)) = ex_src i"
    "\<forall>k. mem' (0 + (unat (offset rom_C7) + (2 * k + 1))) =
         ex_mem (0 + (unat (offset rom_C7) + (2 * k + 1)))"
    "\<forall>a. a < 0 + unat (offset rom_C7) \<or>
         0 + (unat (offset rom_C7) + 2 * unat (fileSize rom_C7)) \<le> a \<longrightarrow> mem' a = ex_mem a"
    by blast
  have o: "unat (offset rom_C7) = 1" and f: "unat (fileSize rom_C7) = 2"
    by (simp_all add: rom_C7_def)
  have "mem' 1 = 7" using m(2) [unfolded o f, rule_format, of 0] by (simp add: ex_src_def eval_nat_numeral)
  moreover have "mem' 3 = 9" using m(2) [unfolded o f, rule_format, of 1] by (simp add: ex_src_def eval_nat_numeral)
  moreover have "mem' 2 = 0" using m(3) [unfolded o, rule_format, of 0] by (simp add: ex_mem_def eval_nat_numeral)
  moreover have "mem' 4 = 0" using m(3) [unfolded o, rule_format, of 1] by (simp add: ex_mem_def eval_nat_numeral)
  moreover have "mem' 0 = 0" using m(4) [unfolded o f, rule_format, of 0] by (simp add: ex_mem_def eval_nat_numeral)
  moreover have "mem' 5 = 0" using m(4) [unfolded o f, rule_format, of 5] by (simp add: ex_mem_def eval_nat_numeral)
  ultimately show ?thesis using g s b m(1) by simp
qed

text \<open>
  An image of two bytes at offset \<open>2 ^ 32 - 2\<close>: \<open>destIdx += stride\<close> wraps around, and
  the second byte goes to index 0 of the region, which lies outside
  \<open>[offset, offset + 2 * fileSize)\<close>, and not to index \<open>offset + 2\<close>.
\<close>

theorem LoadROM_place_every_other_byte_wraps:
  "groupSize rom_C7_top = 1 \<and> stride rom_C7_top = 2 \<and> (1 :: nat) < unat (fileSize rom_C7_top) \<and>
   LoadROM_place rom_C7_top ex_src 0 ex_mem 0 (offset rom_C7_top) =
     Some (ex_mem(4294967294 := 7, 0 := 9)) \<and>
   (0 :: nat) < 0 + unat (offset rom_C7_top) \<and>
   (ex_mem(4294967294 := 7, 0 := 9)) 0 \<noteq> ex_mem 0 \<and>
   (ex_mem(4294967294 := 7, 0 := 9)) (0 + (unat (offset rom_C7_top) + 2 * 1)) \<noteq> ex_src 1"
proof -
  have "LoadROM_place rom_C7_top ex_src 0 ex_mem 0 (offset rom_C7_top) =
     Some (ex_mem(4294967294 := 7, 0 := 9))"
    by (simp add: rom_C7_top_def LoadROM_place_unfold LoadROM_place_done LoadROM_group_step
        LoadROM_group_done ex_src_def)
  then show ?thesis by (simp add: rom_C7_top_def ex_mem_def ex_src_def)
qed

section \<open>Properties of the lookup\<close>

lemma FindROMByCRCInGame_loop_Some:
  "FindROMByCRCInGame_loop rs j c = Some k \<Longrightarrow>
     j \<le> k \<and> k - j < length rs \<and> crc (rs ! (k - j)) = c"
proof (induction rs arbitrary: j)
  case Nil
  then show ?case by simp
next
  case (Cons r rs)
  show ?case
  proof (cases "c = crc r")
    case True
    with Cons.prems show ?thesis by simp
  next
    case False
    with Cons.prems have "FindROMByCRCInGame_loop rs (Suc j) c = Some k" by simp
    from Cons.IH [OF this] show ?thesis by (auto simp: Suc_diff_le)
  qed
qed

lemma FindROMByCRCInGame_Some:
  "FindROMByCRCInGame G c = Some (G', k) \<Longrightarrow>
     G' = G \<and> k < length (ROM (snd G)) \<and> crc (ROM (snd G) ! k) = c"
  using FindROMByCRCInGame_loop_Some [of "ROM (snd G)" 0 c k]
  by (auto simp: FindROMByCRCInGame_def split: option.splits)

lemma FindROMByCRC_loop_Some:
  "FindROMByCRC_loop Gs i c = Some (G, k) \<Longrightarrow>
     i \<le> fst G \<and> fst G - i < length Gs \<and> Gs ! (fst G - i) = snd G \<and>
     FindROMByCRCInGame G c = Some (G, k)"
proof (induction Gs arbitrary: i)
  case Nil
  then show ?case by simp
next
  case (Cons H Hs)
  show ?case
  proof (cases "FindROMByCRCInGame (i, H) c")
    case (Some found)
    with Cons.prems have f: "FindROMByCRCInGame (i, H) c = Some (G, k)" by simp
    from FindROMByCRCInGame_Some [OF f] have "G = (i, H)" by simp
    with f show ?thesis by simp
  next
    case None
    with Cons.prems have "FindROMByCRC_loop Hs (Suc i) c = Some (G, k)" by simp
    from Cons.IH [OF this] show ?thesis by (auto simp: Suc_diff_le)
  qed
qed

lemma FindROMByCRC_loop_None:
  "FindROMByCRC_loop Gs i c = None \<Longrightarrow> n < length Gs \<Longrightarrow>
     FindROMByCRCInGame (m, Gs ! n) c = None"
proof (induction Gs arbitrary: i n)
  case Nil
  then show ?case by simp
next
  case (Cons H Hs)
  from Cons.prems(1) have h: "FindROMByCRCInGame (i, H) c = None"
    and t: "FindROMByCRC_loop Hs (Suc i) c = None"
    by (auto split: option.splits)
  show ?case
  proof (cases n)
    case 0
    with h show ?thesis by (simp add: FindROMByCRCInGame_def split: option.splits)
  next
    case (Suc n')
    with Cons.prems(2) Cons.IH [OF t, of n'] show ?thesis by simp
  qed
qed

lemma FindROMByCRC_in_catalog:
  assumes "FindROMByCRC GameList TryGame c = Some (G, k)"
    and "\<And>T. TryGame = Some T \<Longrightarrow> in_catalog GameList T"
  shows "in_catalog GameList G \<and> k < length (ROM (snd G)) \<and> crc (ROM (snd G) ! k) = c \<and>
         FindROMByCRCInGame G c = Some (G, k)"
proof (cases "case TryGame of Some T \<Rightarrow> FindROMByCRCInGame T c | None \<Rightarrow> None")
  case None
  with assms(1) have "FindROMByCRC_loop GameList 0 c = Some (G, k)"
    by (simp add: FindROMByCRC_def)
  from FindROMByCRC_loop_Some [OF this] FindROMByCRCInGame_Some [of G c G k]
  show ?thesis by (simp add: in_catalog_def)
next
  case (Some found)
  then obtain T where T: "TryGame = Some T" "FindROMByCRCInGame T c = Some found"
    by (auto split: option.splits)
  with assms(1) Some have f: "found = (G, k)" by (simp add: FindROMByCRC_def)
  from FindROMByCRCInGame_Some [of T c G k] T f assms(2) [OF T(1)]
  show ?thesis by simp
qed

lemma FindROMByCRC_None_bias:
  assumes "FindROMByCRC GameList None c = None" and "in_catalog GameList G"
  shows "FindROMByCRC GameList (Some G) c = None"
proof -
  from assms(1) have n: "FindROMByCRC_loop GameList 0 c = None" by (simp add: FindROMByCRC_def)
  from FindROMByCRC_loop_None [OF n, of "fst G" "fst G"] assms(2)
  have "FindROMByCRCInGame G c = None" by (simp add: in_catalog_def)
  with n show ?thesis by (simp add: FindROMByCRC_def)
qed

lemma FindROMByCRC_Some_bias:
  assumes "FindROMByCRC GameList None c = Some (G, k)"
  shows "FindROMByCRC GameList (Some G) c = Some (G, k)"
proof -
  from FindROMByCRC_in_catalog [OF assms] have "FindROMByCRCInGame G c = Some (G, k)" by simp
  then show ?thesis by (simp add: FindROMByCRC_def)
qed

lemma first_match_in_catalog:
  "first_match GameList zf = Some G \<Longrightarrow> in_catalog GameList G"
proof (induction zf)
  case Nil
  then show ?case by simp
next
  case (Cons e es)
  then show ?case
    using FindROMByCRC_in_catalog [of GameList None "entry_crc e" G]
    by (auto split: if_splits option.splits)
qed


section \<open>Properties of the scan\<close>

lemma scan_entry_skip:
  "\<not> info_ok e \<or> FindROMByCRC GameList (Game s) (entry_crc e) = None \<Longrightarrow>
     scan_entry GameList s e = s"
  by (auto simp: scan_entry_def)

lemma scan_entry_first:
  assumes "Game s = None" and "info_ok e"
    and "FindROMByCRC GameList None (entry_crc e) = Some (G, k)"
  shows "scan_entry GameList s e =
           s\<lparr>Game := Some G,
             scan_msgs := scan_msgs s @ [Dbg_SetIdentified (id' (snd G)) (title (snd G))],
             romsFound := (romsFound s)(k := True)\<rparr>"
  using assms by (simp add: scan_entry_def DebugLog_def)

lemma scan_entry_later:
  assumes "Game s = Some G"
  shows "Game (scan_entry GameList s e) = Some G"
    and "romsFound (scan_entry GameList s e) i \<longleftrightarrow> romsFound s i \<or> is_image GameList G e i"
    and "multipleGameError (scan_entry GameList s e) \<longleftrightarrow>
           multipleGameError s \<or> is_foreign GameList G e"
    and "filter is_MultipleGames (scan_msgs (scan_entry GameList s e)) =
           filter is_MultipleGames (scan_msgs s) @
           (if is_foreign GameList G e \<and> \<not> multipleGameError s
            then [Err_MultipleGames (title (snd G))] else [])"
    and "filter is_Missing (scan_msgs (scan_entry GameList s e)) = filter is_Missing (scan_msgs s)"
  using assms
  by (auto simp: scan_entry_def is_image_def is_foreign_def DebugLog_def ErrorLog_def Let_def
      split: option.splits)

lemma scan_later:
  assumes "Game s = Some G"
  shows "Game (foldl (scan_entry GameList) s es) = Some G"
    and "romsFound (foldl (scan_entry GameList) s es) i \<longleftrightarrow>
           romsFound s i \<or> (\<exists>e\<in>set es. is_image GameList G e i)"
    and "multipleGameError (foldl (scan_entry GameList) s es) \<longleftrightarrow>
           multipleGameError s \<or> (\<exists>e\<in>set es. is_foreign GameList G e)"
    and "filter is_MultipleGames (scan_msgs (foldl (scan_entry GameList) s es)) =
           filter is_MultipleGames (scan_msgs s) @
           (if (\<exists>e\<in>set es. is_foreign GameList G e) \<and> \<not> multipleGameError s
            then [Err_MultipleGames (title (snd G))] else [])"
    and "filter is_Missing (scan_msgs (foldl (scan_entry GameList) s es)) =
           filter is_Missing (scan_msgs s)"
  using assms
proof (induction es arbitrary: s)
  case Nil
  {
    case 1 then show ?case by simp
  next
    case 2 then show ?case by simp
  next
    case 3 then show ?case by simp
  next
    case 4 then show ?case by simp
  next
    case 5 then show ?case by simp
  }
next
  case (Cons e es)
  {
    case 1
    from Cons.IH(1) [OF scan_entry_later(1) [OF 1]] show ?case by simp
  next
    case 2
    from Cons.IH(2) [OF scan_entry_later(1) [OF 2]] scan_entry_later(2) [OF 2]
    show ?case by auto
  next
    case 3
    from Cons.IH(3) [OF scan_entry_later(1) [OF 3]] scan_entry_later(3) [OF 3]
    show ?case by auto
  next
    case 4
    from Cons.IH(4) [OF scan_entry_later(1) [OF 4], of GameList e]
      scan_entry_later(3) [OF 4, of GameList e] scan_entry_later(4) [OF 4, of GameList e]
    show ?case by auto
  next
    case 5
    from Cons.IH(5) [OF scan_entry_later(1) [OF 5]] scan_entry_later(5) [OF 5]
    show ?case by simp
  }
qed


lemma not_image_before_match:
  assumes "\<not> info_ok e \<or> FindROMByCRC GameList None (entry_crc e) = None"
    and "in_catalog GameList G"
  shows "\<not> is_image GameList G e i" and "\<not> is_foreign GameList G e"
  using assms FindROMByCRC_None_bias [of GameList "entry_crc e" G]
  by (auto simp: is_image_def is_foreign_def)

lemma image_at_match:
  assumes "info_ok e" and "FindROMByCRC GameList None (entry_crc e) = Some (G, k)"
  shows "is_image GameList G e i \<longleftrightarrow> i = k" and "\<not> is_foreign GameList G e"
  using assms FindROMByCRC_Some_bias [OF assms(2)]
  by (auto simp: is_image_def is_foreign_def)

lemma scan_unidentified:
  "Game s = None \<Longrightarrow> first_match GameList es = None \<Longrightarrow>
     foldl (scan_entry GameList) s es = s"
proof (induction es)
  case Nil
  then show ?case by simp
next
  case (Cons e es)
  from Cons.prems have skip: "\<not> info_ok e \<or> FindROMByCRC GameList (Game s) (entry_crc e) = None"
    and rest: "first_match GameList es = None"
    by (auto split: if_splits option.splits)
  from Cons.IH [OF Cons.prems(1) rest] scan_entry_skip [OF skip] show ?case by simp
qed

lemma scan_identified_all:
  assumes "Game s = None" and "first_match GameList es = Some G"
  shows "Game (foldl (scan_entry GameList) s es) = Some G \<and>
         (\<forall>i. romsFound (foldl (scan_entry GameList) s es) i \<longleftrightarrow>
           romsFound s i \<or> (\<exists>e\<in>set es. is_image GameList G e i)) \<and>
         (multipleGameError (foldl (scan_entry GameList) s es) \<longleftrightarrow>
           multipleGameError s \<or> (\<exists>e\<in>set es. is_foreign GameList G e)) \<and>
         filter is_MultipleGames (scan_msgs (foldl (scan_entry GameList) s es)) =
           filter is_MultipleGames (scan_msgs s) @
           (if (\<exists>e\<in>set es. is_foreign GameList G e) \<and> \<not> multipleGameError s
            then [Err_MultipleGames (title (snd G))] else []) \<and>
         filter is_Missing (scan_msgs (foldl (scan_entry GameList) s es)) =
           filter is_Missing (scan_msgs s)"
  using assms
proof (induction es)
  case Nil
  then show ?case by simp
next
  case (Cons e es)
  have cat: "in_catalog GameList G"
    using Cons.prems(2) by (rule first_match_in_catalog)
  from Cons.prems(2) consider
    (skip) "\<not> info_ok e \<or> FindROMByCRC GameList None (entry_crc e) = None"
      "first_match GameList es = Some G"
    | (hit) k where "info_ok e" "FindROMByCRC GameList None (entry_crc e) = Some (G, k)"
    by (auto split: if_splits option.splits)
  then show ?case
  proof cases
    case skip
    from skip(1) Cons.prems(1) have "scan_entry GameList s e = s" by (simp add: scan_entry_skip)
    with Cons.IH [OF Cons.prems(1) skip(2)] not_image_before_match [OF skip(1) cat]
    show ?thesis by simp
  next
    case hit
    let ?s = "scan_entry GameList s e"
    have e: "?s = s\<lparr>Game := Some G,
           scan_msgs := scan_msgs s @ [Dbg_SetIdentified (id' (snd G)) (title (snd G))],
           romsFound := (romsFound s)(k := True)\<rparr>"
      by (rule scan_entry_first [OF Cons.prems(1) hit])
    have g: "Game ?s = Some G" using e by simp
    have 1: "Game (foldl (scan_entry GameList) s (e # es)) = Some G"
      using scan_later(1) [OF g] by simp
    have 2: "romsFound (foldl (scan_entry GameList) s (e # es)) i \<longleftrightarrow>
           romsFound s i \<or> (\<exists>e\<in>set (e # es). is_image GameList G e i)" for i
      using scan_later(2) [OF g, of GameList es i] image_at_match(1) [OF hit, of i] e by auto
    have 3: "multipleGameError (foldl (scan_entry GameList) s (e # es)) \<longleftrightarrow>
           multipleGameError s \<or> (\<exists>e\<in>set (e # es). is_foreign GameList G e)"
      using scan_later(3) [OF g, of GameList es] image_at_match(2) [OF hit] e by auto
    have 4: "filter is_MultipleGames (scan_msgs (foldl (scan_entry GameList) s (e # es))) =
           filter is_MultipleGames (scan_msgs s) @
           (if (\<exists>e\<in>set (e # es). is_foreign GameList G e) \<and> \<not> multipleGameError s
            then [Err_MultipleGames (title (snd G))] else [])"
      using scan_later(4) [OF g, of GameList es] image_at_match(2) [OF hit] e by auto
    have 5: "filter is_Missing (scan_msgs (foldl (scan_entry GameList) s (e # es))) =
           filter is_Missing (scan_msgs s)"
      using scan_later(5) [OF g, of GameList es] e by auto
    from 1 2 3 4 5 show ?thesis by blast
  qed
qed

lemma scan_archive_unidentified:
  "first_match GameList zf = None \<Longrightarrow> scan_archive GameList zf = scan_init"
  by (simp add: scan_archive_def scan_unidentified scan_init_def)

lemma scan_archive_identified:
  assumes "first_match GameList zf = Some G"
  shows "Game (scan_archive GameList zf) = Some G"
    and "romsFound (scan_archive GameList zf) = present GameList G zf"
    and "filter is_MultipleGames (scan_msgs (scan_archive GameList zf)) =
           (if \<exists>e\<in>set zf. is_foreign GameList G e
            then [Err_MultipleGames (title (snd G))] else [])"
    and "filter is_Missing (scan_msgs (scan_archive GameList zf)) = []"
  using scan_identified_all [of scan_init GameList zf G, OF _ assms]
  by (auto simp: scan_archive_def scan_init_def present_def fun_eq_iff)

section \<open>Properties of the checks on the presence flags\<close>

lemma report_missing_msgs:
  "snd (report_missing rs i found err msgs) =
     msgs @ map (\<lambda>k. Err_Missing (file' (rs ! (k - i))) (crc (rs ! (k - i))))
              (filter (\<lambda>k. \<not> found k) [i..<i + length rs])"
proof (induction rs arbitrary: i err msgs)
  case Nil
  then show ?case by simp
next
  case (Cons r rs)
  have u: "[i..<i + length (r # rs)] = i # [Suc i..<Suc i + length rs]"
    using upt_conv_Cons [of i "i + length (r # rs)"] by simp
  have m: "map (\<lambda>k. Err_Missing (file' ((r # rs) ! (k - i))) (crc ((r # rs) ! (k - i))))
             (filter (\<lambda>k. \<not> found k) [Suc i..<Suc i + length rs]) =
           map (\<lambda>k. Err_Missing (file' (rs ! (k - Suc i))) (crc (rs ! (k - Suc i))))
             (filter (\<lambda>k. \<not> found k) [Suc i..<Suc i + length rs])"
  proof (rule map_cong)
    fix k assume "k \<in> set (filter (\<lambda>k. \<not> found k) [Suc i..<Suc i + length rs])"
    then have "k \<in> set [Suc i..<Suc i + length rs]" by (simp only: set_filter) blast
    then have "i < k" by (simp only: set_upt atLeastLessThan_iff) arith
    then have "k - i = Suc (k - Suc i)" by simp
    then show "Err_Missing (file' ((r # rs) ! (k - i))) (crc ((r # rs) ! (k - i))) =
               Err_Missing (file' (rs ! (k - Suc i))) (crc (rs ! (k - Suc i)))"
      by simp
  qed simp
  show ?case
    unfolding u using m by (simp add: Cons.IH ErrorLog_def)
qed

lemma report_missing_err:
  "fst (report_missing rs i found err msgs) =
     (if err = FAIL \<or> (\<exists>k. i \<le> k \<and> k < i + length rs \<and> \<not> found k) then FAIL else OKAY)"
proof (induction rs arbitrary: i err msgs)
  case Nil
  then show ?case by (cases err) auto
next
  case (Cons r rs)
  have e: "(\<exists>k. i \<le> k \<and> k < i + length (r # rs) \<and> \<not> found k) \<longleftrightarrow>
           \<not> found i \<or> (\<exists>k. Suc i \<le> k \<and> k < Suc i + length rs \<and> \<not> found k)"
  proof
    assume "\<exists>k. i \<le> k \<and> k < i + length (r # rs) \<and> \<not> found k"
    then obtain k where k: "i \<le> k" "k < i + length (r # rs)" "\<not> found k" by blast
    show "\<not> found i \<or> (\<exists>k. Suc i \<le> k \<and> k < Suc i + length rs \<and> \<not> found k)"
    proof (cases "k = i")
      case True with k(3) show ?thesis by simp
    next
      case False
      with k have "Suc i \<le> k \<and> k < Suc i + length rs \<and> \<not> found k" by simp
      then show ?thesis by blast
    qed
  next
    assume "\<not> found i \<or> (\<exists>k. Suc i \<le> k \<and> k < Suc i + length rs \<and> \<not> found k)"
    then show "\<exists>k. i \<le> k \<and> k < i + length (r # rs) \<and> \<not> found k"
    proof
      assume "\<not> found i"
      then have "i \<le> i \<and> i < i + length (r # rs) \<and> \<not> found i" by simp
      then show ?thesis by blast
    next
      assume "\<exists>k. Suc i \<le> k \<and> k < Suc i + length rs \<and> \<not> found k"
      then obtain k where "Suc i \<le> k" "k < Suc i + length rs" "\<not> found k" by blast
      then have "i \<le> k \<and> k < i + length (r # rs) \<and> \<not> found k" by simp
      then show ?thesis by blast
    qed
  qed
  show ?case
    unfolding e by (cases err) (auto simp: Cons.IH ErrorLog_def)
qed

lemma count_loaded_msgs:
  "filter is_MultipleGames (snd (count_loaded rs i loaded n msgs)) = filter is_MultipleGames msgs"
  by (induction rs arbitrary: i n msgs) (simp_all add: ErrorLog_def)

lemma count_loaded_le:
  "fst (count_loaded rs i loaded n msgs) \<le> n + length rs"
proof (induction rs arbitrary: i n msgs)
  case Nil
  then show ?case by simp
next
  case (Cons r rs)
  show ?case
    using Cons.IH [of "Suc i" "n + 1" msgs]
      Cons.IH [of "Suc i" n "snd (ErrorLog (Err_FailedToLoad (file' r) (crc r)) msgs)"]
    by simp
qed

lemma count_loaded_less:
  "i \<le> k \<Longrightarrow> k < i + length rs \<Longrightarrow> \<not> loaded k \<Longrightarrow>
     fst (count_loaded rs i loaded n msgs) < n + length rs"
proof (induction rs arbitrary: i n msgs)
  case Nil
  then show ?case by simp
next
  case (Cons r rs)
  show ?case
  proof (cases "k = i")
    case True
    with Cons.prems(3)
    have "fst (count_loaded (r # rs) i loaded n msgs) =
          fst (count_loaded rs (Suc i) loaded n (snd (ErrorLog (Err_FailedToLoad (file' r) (crc r)) msgs)))"
      by simp
    also have "\<dots> \<le> n + length rs" by (rule count_loaded_le)
    finally show ?thesis by simp
  next
    case False
    with Cons.prems have k: "Suc i \<le> k" "k < Suc i + length rs" by simp_all
    show ?thesis
      using Cons.IH [OF k Cons.prems(3), of "n + 1" msgs]
        Cons.IH [OF k Cons.prems(3), of n "snd (ErrorLog (Err_FailedToLoad (file' r) (crc r)) msgs)"]
      by simp
  qed
qed

section \<open>Properties of LoadROM and of the second loop\<close>

lemma LoadROM_wrong_size:
  "uncompressed_size e \<noteq> unat (fileSize R) \<Longrightarrow>
     \<exists>msgs'. LoadROM buf bufSize Map R e loadAll mem msgs = Some (FAIL, buf, mem, msgs')"
  by (simp add: LoadROM_def ErrorLog_def)

lemma LoadROM_msgs:
  "LoadROM buf bufSize Map R e loadAll mem msgs = Some (res, buf', mem', msgs') \<Longrightarrow>
     filter is_MultipleGames msgs' = filter is_MultipleGames msgs"
  by (auto simp: LoadROM_def ErrorLog_def Let_def split: if_splits option.splits)

text \<open>
  \<open>LoadROM\<close> returns for an image of positive group size (or of no bytes) whose length
  is below \<open>2 ^ 31\<close>: the byte swap ends, and \<open>srcIdx\<close> reaches the length without
  wrapping around.
\<close>

lemma LoadROM_returns:
  assumes "(0 < groupSize R \<or> fileSize R = 0) \<and> fileSize R < 0x80000000"
  shows "\<exists>x. LoadROM buf bufSize Map R e loadAll mem msgs = Some x"
proof -
  have place: "\<exists>mem'. LoadROM_place R b p mem 0 (offset R) = Some mem'" for b p
  proof (cases "fileSize R = 0")
    case True
    then show ?thesis by (simp add: LoadROM_place_done)
  next
    case False
    with assms show ?thesis using LoadROM_place_returns [of R 0 b p mem "offset R"] by simp
  qed
  have "fileSize R \<noteq> 0xFFFFFFFF" using assms by auto
  then have swap: "\<exists>b'. ByteSwap b (fileSize R) = Some b'" for b
    by (simp add: ByteSwap_eq)
  show ?thesis
  proof (cases "\<not> name_ok e \<or> uncompressed_size e \<noteq> unat (fileSize R) \<or> \<not> open_ok e \<or>
                word_of_int (fst (unzReadCurrentFile e buf bufSize)) \<noteq> fileSize R")
    case True
    then show ?thesis by (auto simp: LoadROM_def Let_def)
  next
    case False
    obtain b1 where b1: "(if byteSwap R then ByteSwap (snd (unzReadCurrentFile e buf bufSize)) (fileSize R)
                          else Some (snd (unzReadCurrentFile e buf bufSize))) = Some b1"
      using swap [of "snd (unzReadCurrentFile e buf bufSize)"] by (cases "byteSwap R") auto
    show ?thesis
    proof (cases "LoadROM_find_map Map (region R)")
      case None
      with False b1 show ?thesis by (simp add: LoadROM_def Let_def)
    next
      case (Some p)
      from place [of b1 p] obtain mem' where "LoadROM_place R b1 p mem 0 (offset R) = Some mem'"
        by blast
      with False b1 Some show ?thesis by (simp add: LoadROM_def Let_def)
    qed
  qed
qed

lemma is_image_own: "is_image GameList G e i \<Longrightarrow> is_own GameList G e"
  by (auto simp: is_image_def is_own_def split: option.splits)

lemma is_own_image: "is_own GameList G e \<Longrightarrow> \<exists>i. is_image GameList G e i"
  by (auto simp: is_image_def is_own_def split: option.splits)

lemma is_image_in_range:
  assumes "is_image GameList G e i" and "in_catalog GameList G"
  shows "i < length (ROM (snd G))"
proof -
  from assms(1) obtain CurGame where
    f: "FindROMByCRC GameList (Some G) (entry_crc e) = Some (CurGame, i)" and p: "fst CurGame = fst G"
    by (auto simp: is_image_def split: option.splits)
  from FindROMByCRC_in_catalog [OF f] assms(2)
  have "in_catalog GameList CurGame" and "i < length (ROM (snd CurGame))" by simp_all
  with p assms(2) show ?thesis by (simp add: in_catalog_def)
qed

lemma load_entry_skip:
  "\<not> is_own GameList G e \<Longrightarrow> load_entry Map GameList G maxSize loadAll s e = Some s"
  by (auto simp: load_entry_def is_own_def split: option.splits)

lemma load_entry_image:
  "is_image GameList G e i \<Longrightarrow>
   load_entry Map GameList G maxSize loadAll s e =
     (case LoadROM (scratch s) maxSize Map (ROM (snd G) ! i) e loadAll (memory s) (load_msgs s) of
        None \<Rightarrow> None
      | Some (res, buf, mem, msgs) \<Rightarrow>
          Some \<lparr>romsLoaded = (if res = OKAY then (romsLoaded s)(i := True) else romsLoaded s),
                scratch = buf, memory = mem, load_msgs = msgs\<rparr>)"
  by (auto simp: load_entry_def is_image_def split: option.splits)

lemma load_archive_own:
  "load_archive Map GameList G maxSize loadAll s zf =
   load_archive Map GameList G maxSize loadAll s (filter (is_own GameList G) zf)"
  by (induction zf arbitrary: s) (simp_all add: load_entry_skip split: option.splits)

lemma load_entry_msgs:
  "load_entry Map GameList G maxSize loadAll s e = Some t \<Longrightarrow>
     filter is_MultipleGames (load_msgs t) = filter is_MultipleGames (load_msgs s)"
  using LoadROM_msgs
  by (fastforce simp: load_entry_def split: if_splits option.splits prod.splits)

lemma load_archive_msgs:
  "load_archive Map GameList G maxSize loadAll s zf = Some t \<Longrightarrow>
     filter is_MultipleGames (load_msgs t) = filter is_MultipleGames (load_msgs s)"
proof (induction zf arbitrary: s)
  case Nil
  then show ?case by simp
next
  case (Cons e es)
  from Cons.prems obtain s' where
    s': "load_entry Map GameList G maxSize loadAll s e = Some s'"
      "load_archive Map GameList G maxSize loadAll s' es = Some t"
    by (auto split: option.splits)
  from Cons.IH [OF s'(2)] load_entry_msgs [OF s'(1)] show ?case by simp
qed

lemma load_entry_not_loaded:
  assumes "load_entry Map GameList G maxSize loadAll s e = Some t"
    and "is_image GameList G e i \<Longrightarrow> uncompressed_size e \<noteq> unat (fileSize (ROM (snd G) ! i))"
  shows "romsLoaded t i = romsLoaded s i"
proof (cases "is_own GameList G e")
  case False
  with assms(1) show ?thesis by (simp add: load_entry_skip)
next
  case True
  then obtain j where j: "is_image GameList G e j" using is_own_image by blast
  show ?thesis
  proof (cases "j = i")
    case False
    with assms(1) show ?thesis
      by (auto simp: load_entry_image [OF j] split: option.splits if_splits)
  next
    case True
    with j assms(2) have "uncompressed_size e \<noteq> unat (fileSize (ROM (snd G) ! i))" by simp
    from LoadROM_wrong_size [OF this, of "scratch s" maxSize Map loadAll "memory s" "load_msgs s"]
    obtain msgs' where
      "LoadROM (scratch s) maxSize Map (ROM (snd G) ! i) e loadAll (memory s) (load_msgs s) =
         Some (FAIL, scratch s, memory s, msgs')"
      by blast
    with assms(1) j True show ?thesis
      by (auto simp: load_entry_image [of GameList G e i])
  qed
qed

lemma load_archive_not_loaded:
  assumes "load_archive Map GameList G maxSize loadAll s zf = Some t"
    and "\<forall>e\<in>set zf. is_image GameList G e i \<longrightarrow> uncompressed_size e \<noteq> unat (fileSize (ROM (snd G) ! i))"
  shows "romsLoaded t i = romsLoaded s i"
  using assms
proof (induction zf arbitrary: s)
  case Nil
  then show ?case by simp
next
  case (Cons e es)
  from Cons.prems(1) obtain s' where
    s': "load_entry Map GameList G maxSize loadAll s e = Some s'"
      "load_archive Map GameList G maxSize loadAll s' es = Some t"
    by (auto split: option.splits)
  from Cons.IH [OF s'(2)] Cons.prems(2) load_entry_not_loaded [OF s'(1), of i]
  show ?case by simp
qed

lemma load_entry_returns:
  assumes "in_catalog GameList G" and "\<forall>r\<in>set (ROM (snd G)). (0 < groupSize r \<or> fileSize r = 0) \<and> fileSize r < 0x80000000"
  shows "\<exists>t. load_entry Map GameList G maxSize loadAll s e = Some t"
proof (cases "is_own GameList G e")
  case False
  then show ?thesis by (simp add: load_entry_skip)
next
  case True
  then obtain j where j: "is_image GameList G e j" using is_own_image by blast
  from is_image_in_range [OF j assms(1)] assms(2)
  have "(0 < groupSize (ROM (snd G) ! j) \<or> fileSize (ROM (snd G) ! j) = 0) \<and>
        fileSize (ROM (snd G) ! j) < 0x80000000" by simp
  from LoadROM_returns [OF this] show ?thesis
    by (fastforce simp: load_entry_image [OF j] split: option.splits)
qed

lemma load_archive_returns:
  assumes "in_catalog GameList G" and "\<forall>r\<in>set (ROM (snd G)). (0 < groupSize r \<or> fileSize r = 0) \<and> fileSize r < 0x80000000"
  shows "\<exists>t. load_archive Map GameList G maxSize loadAll s zf = Some t"
proof (induction zf arbitrary: s)
  case Nil
  then show ?case by simp
next
  case (Cons e es)
  from load_entry_returns [OF assms] obtain s' where
    "load_entry Map GameList G maxSize loadAll s e = Some s'" by blast
  with Cons.IH [of s'] show ?case by simp
qed

section \<open>The notions in terms of the catalog alone\<close>

lemma FindROMByCRCInGame_loop_None_iff:
  "FindROMByCRCInGame_loop rs j c = None \<longleftrightarrow> c \<notin> crc ` set rs"
  by (induction rs arbitrary: j) auto

lemma FindROMByCRCInGame_loop_first:
  "FindROMByCRCInGame_loop rs j c = Some k \<longleftrightarrow>
     j \<le> k \<and> k - j < length rs \<and> crc (rs ! (k - j)) = c \<and> (\<forall>m<k - j. crc (rs ! m) \<noteq> c)"
proof (induction rs arbitrary: j)
  case Nil
  then show ?case by simp
next
  case (Cons r rs)
  show ?case
  proof (cases "c = crc r")
    case True
    have "k = j" if "j \<le> k" "\<forall>m<k - j. crc ((r # rs) ! m) \<noteq> c"
    proof (rule ccontr)
      assume "k \<noteq> j"
      with that(1) have "0 < k - j" by simp
      from that(2) [rule_format, OF this] True show False by simp
    qed
    with True show ?thesis by auto
  next
    case False
    have "(\<forall>m<k - j. crc ((r # rs) ! m) \<noteq> c) \<longleftrightarrow> (\<forall>m<k - Suc j. crc (rs ! m) \<noteq> c)"
      if "Suc j \<le> k"
    proof
      assume a: "\<forall>m<k - j. crc ((r # rs) ! m) \<noteq> c"
      show "\<forall>m<k - Suc j. crc (rs ! m) \<noteq> c"
      proof (intro allI impI)
        fix m assume "m < k - Suc j"
        then have "Suc m < k - j" by simp
        from a [rule_format, OF this] show "crc (rs ! m) \<noteq> c" by simp
      qed
    next
      assume a: "\<forall>m<k - Suc j. crc (rs ! m) \<noteq> c"
      show "\<forall>m<k - j. crc ((r # rs) ! m) \<noteq> c"
      proof (intro allI impI)
        fix m assume m: "m < k - j"
        show "crc ((r # rs) ! m) \<noteq> c"
        proof (cases m)
          case 0
          with False show ?thesis by simp
        next
          case (Suc m')
          with m have "m' < k - Suc j" by simp
          from a [rule_format, OF this] Suc show ?thesis by simp
        qed
      qed
    qed
    moreover have "j \<le> k \<and> k - j < Suc (length rs) \<and> crc ((r # rs) ! (k - j)) = c \<longleftrightarrow>
       Suc j \<le> k \<and> k - Suc j < length rs \<and> crc (rs ! (k - Suc j)) = c"
    proof (cases "Suc j \<le> k")
      case True
      then have "k - j = Suc (k - Suc j)" by simp
      with True show ?thesis by auto
    next
      case False
      then have "k - j = 0" by simp
      with False \<open>c \<noteq> crc r\<close> show ?thesis by auto
    qed
    ultimately show ?thesis using False Cons.IH [of "Suc j"] by auto
  qed
qed

lemma FindROMByCRCInGame_None_iff:
  "FindROMByCRCInGame G c = None \<longleftrightarrow> c \<notin> crc ` set (ROM (snd G))"
  using FindROMByCRCInGame_loop_None_iff [of "ROM (snd G)" 0 c]
  by (cases "FindROMByCRCInGame_loop (ROM (snd G)) 0 c") (auto simp: FindROMByCRCInGame_def)

lemma FindROMByCRC_loop_None_iff:
  "FindROMByCRC_loop Gs i c = None \<longleftrightarrow> (\<forall>H\<in>set Gs. c \<notin> crc ` set (ROM H))"
proof (induction Gs arbitrary: i)
  case Nil
  then show ?case by simp
next
  case (Cons H Hs)
  show ?case
    using Cons.IH [of "Suc i"] FindROMByCRCInGame_None_iff [of "(i, H)" c]
    by (auto split: option.splits)
qed

text \<open>
  For a title \<open>G\<close> of the catalog: an entry is the title's own when \<open>G\<close> lists its
  checksum; it is foreign when some title lists its checksum and \<open>G\<close> does not; it is
  image \<open>i\<close> when \<open>i\<close> is the first position of \<open>G\<close> with its checksum.
\<close>

lemma is_own_iff:
  assumes "in_catalog GameList G"
  shows "is_own GameList G e \<longleftrightarrow> info_ok e \<and> entry_crc e \<in> crc ` set (ROM (snd G))"
proof (cases "FindROMByCRCInGame G (entry_crc e)")
  case None
  then have n: "entry_crc e \<notin> crc ` set (ROM (snd G))" by (simp add: FindROMByCRCInGame_None_iff)
  have "fst H \<noteq> fst G" if "FindROMByCRC_loop GameList 0 (entry_crc e) = Some (H, k)" for H k
  proof
    assume "fst H = fst G"
    with FindROMByCRC_loop_Some [OF that] assms have "snd H = snd G"
      by (simp add: in_catalog_def)
    with FindROMByCRC_loop_Some [OF that] FindROMByCRCInGame_None_iff [of H "entry_crc e"] n
    show False by simp
  qed
  with None n show ?thesis
    by (auto simp: is_own_def FindROMByCRC_def split: option.splits)
next
  case (Some found)
  then have "entry_crc e \<in> crc ` set (ROM (snd G))"
    using FindROMByCRCInGame_None_iff [of G "entry_crc e"] by simp
  moreover from Some have "fst (fst found) = fst G"
    using FindROMByCRCInGame_Some [of G "entry_crc e" "fst found" "snd found"] by simp
  ultimately show ?thesis using Some
    by (auto simp: is_own_def FindROMByCRC_def split: prod.splits)
qed

lemma is_foreign_iff:
  assumes "in_catalog GameList G"
  shows "is_foreign GameList G e \<longleftrightarrow>
           info_ok e \<and> entry_crc e \<notin> crc ` set (ROM (snd G)) \<and>
           (\<exists>H\<in>set GameList. entry_crc e \<in> crc ` set (ROM H))"
proof -
  have "is_foreign GameList G e \<longleftrightarrow>
          info_ok e \<and> \<not> is_own GameList G e \<and> FindROMByCRC GameList (Some G) (entry_crc e) \<noteq> None"
    by (auto simp: is_foreign_def is_own_def split: option.splits)
  moreover have "FindROMByCRC GameList (Some G) (entry_crc e) \<noteq> None \<longleftrightarrow>
          entry_crc e \<in> crc ` set (ROM (snd G)) \<or>
          (\<exists>H\<in>set GameList. entry_crc e \<in> crc ` set (ROM H))"
    using FindROMByCRCInGame_None_iff [of G "entry_crc e"]
      FindROMByCRC_loop_None_iff [of GameList 0 "entry_crc e"]
    by (auto simp: FindROMByCRC_def split: option.splits)
  ultimately show ?thesis using is_own_iff [OF assms, of e] by blast
qed

lemma is_image_iff:
  assumes "in_catalog GameList G"
  shows "is_image GameList G e i \<longleftrightarrow>
           info_ok e \<and> i < length (ROM (snd G)) \<and> crc (ROM (snd G) ! i) = entry_crc e \<and>
           (\<forall>j<i. crc (ROM (snd G) ! j) \<noteq> entry_crc e)"
proof -
  have own: "is_image GameList G e i \<longleftrightarrow>
               is_own GameList G e \<and> FindROMByCRCInGame G (entry_crc e) = Some (G, i)"
  proof (cases "FindROMByCRCInGame G (entry_crc e)")
    case None
    then have "entry_crc e \<notin> crc ` set (ROM (snd G))" by (simp add: FindROMByCRCInGame_None_iff)
    then have "\<not> is_own GameList G e" by (simp add: is_own_iff [OF assms])
    with None show ?thesis using is_image_own [of GameList G e i] by auto
  next
    case (Some found)
    then show ?thesis
      using FindROMByCRCInGame_Some [of G "entry_crc e" "fst found" "snd found"]
      by (auto simp: is_image_def is_own_def FindROMByCRC_def split: prod.splits)
  qed
  have "FindROMByCRCInGame G (entry_crc e) = Some (G, i) \<longleftrightarrow>
          i < length (ROM (snd G)) \<and> crc (ROM (snd G) ! i) = entry_crc e \<and>
          (\<forall>j<i. crc (ROM (snd G) ! j) \<noteq> entry_crc e)"
    using FindROMByCRCInGame_loop_first [of "ROM (snd G)" 0 "entry_crc e" i]
    by (auto simp: FindROMByCRCInGame_def split: option.splits)
  moreover have "entry_crc e \<in> crc ` set (ROM (snd G))"
    if "i < length (ROM (snd G))" "crc (ROM (snd G) ! i) = entry_crc e"
    using that by (metis imageI nth_mem)
  ultimately show ?thesis using own is_own_iff [OF assms, of e] by blast
qed

lemma first_match_None_iff:
  "first_match GameList zf = None \<longleftrightarrow>
     (\<forall>e\<in>set zf. info_ok e \<longrightarrow> (\<forall>H\<in>set GameList. entry_crc e \<notin> crc ` set (ROM H)))"
proof (induction zf)
  case Nil
  then show ?case by simp
next
  case (Cons e es)
  show ?case
    using Cons.IH FindROMByCRC_loop_None_iff [of GameList 0 "entry_crc e"]
    by (auto simp: FindROMByCRC_def split: option.splits)
qed

lemma FindROMByCRC_loop_Some_iff:
  "FindROMByCRC_loop Gs i c = Some (G, k) \<longleftrightarrow>
     i \<le> fst G \<and> fst G - i < length Gs \<and> Gs ! (fst G - i) = snd G \<and>
     (\<forall>n<fst G - i. c \<notin> crc ` set (ROM (Gs ! n))) \<and>
     FindROMByCRCInGame G c = Some (G, k)"
proof (induction Gs arbitrary: i)
  case Nil
  then show ?case by simp
next
  case (Cons H Hs)
  show ?case
  proof (cases "FindROMByCRCInGame (i, H) c")
    case (Some found)
    then have in_H: "c \<in> crc ` set (ROM H)"
      using FindROMByCRCInGame_None_iff [of "(i, H)" c] by simp
    from Some have f: "fst found = (i, H)"
      using FindROMByCRCInGame_Some [of "(i, H)" c "fst found" "snd found"] by simp
    show ?thesis
    proof
      assume "FindROMByCRC_loop (H # Hs) i c = Some (G, k)"
      with Some f have "found = (G, k)" "G = (i, H)" by auto
      with Some show "i \<le> fst G \<and> fst G - i < length (H # Hs) \<and> (H # Hs) ! (fst G - i) = snd G \<and>
         (\<forall>n<fst G - i. c \<notin> crc ` set (ROM ((H # Hs) ! n))) \<and>
         FindROMByCRCInGame G c = Some (G, k)"
        by simp
    next
      assume r: "i \<le> fst G \<and> fst G - i < length (H # Hs) \<and> (H # Hs) ! (fst G - i) = snd G \<and>
         (\<forall>n<fst G - i. c \<notin> crc ` set (ROM ((H # Hs) ! n))) \<and>
         FindROMByCRCInGame G c = Some (G, k)"
      have "fst G = i"
      proof (rule ccontr)
        assume "fst G \<noteq> i"
        with r have "0 < fst G - i" by simp
        with r have "c \<notin> crc ` set (ROM ((H # Hs) ! 0))" by blast
        with in_H show False by simp
      qed
      with r have "G = (i, H)" by (cases G) simp
      with r Some show "FindROMByCRC_loop (H # Hs) i c = Some (G, k)" by simp
    qed
  next
    case None
    then have not_H: "c \<notin> crc ` set (ROM H)"
      using FindROMByCRCInGame_None_iff [of "(i, H)" c] by simp
    have step: "FindROMByCRC_loop (H # Hs) i c = FindROMByCRC_loop Hs (Suc i) c"
      using None by simp
    have "(i \<le> fst G \<and> fst G - i < length (H # Hs) \<and> (H # Hs) ! (fst G - i) = snd G \<and>
         (\<forall>n<fst G - i. c \<notin> crc ` set (ROM ((H # Hs) ! n))) \<and>
         FindROMByCRCInGame G c = Some (G, k)) \<longleftrightarrow>
        (Suc i \<le> fst G \<and> fst G - Suc i < length Hs \<and> Hs ! (fst G - Suc i) = snd G \<and>
         (\<forall>n<fst G - Suc i. c \<notin> crc ` set (ROM (Hs ! n))) \<and>
         FindROMByCRCInGame G c = Some (G, k))"
    proof (cases "Suc i \<le> fst G")
      case True
      then have d: "fst G - i = Suc (fst G - Suc i)" by simp
      have q: "(\<forall>n<Suc (fst G - Suc i). c \<notin> crc ` set (ROM ((H # Hs) ! n))) \<longleftrightarrow>
               (\<forall>n<fst G - Suc i. c \<notin> crc ` set (ROM (Hs ! n)))"
      proof
        assume a: "\<forall>n<Suc (fst G - Suc i). c \<notin> crc ` set (ROM ((H # Hs) ! n))"
        show "\<forall>n<fst G - Suc i. c \<notin> crc ` set (ROM (Hs ! n))"
        proof (intro allI impI)
          fix n assume "n < fst G - Suc i"
          then have "Suc n < Suc (fst G - Suc i)" by simp
          from a [rule_format, OF this] show "c \<notin> crc ` set (ROM (Hs ! n))" by simp
        qed
      next
        assume a: "\<forall>n<fst G - Suc i. c \<notin> crc ` set (ROM (Hs ! n))"
        show "\<forall>n<Suc (fst G - Suc i). c \<notin> crc ` set (ROM ((H # Hs) ! n))"
        proof (intro allI impI)
          fix n assume n: "n < Suc (fst G - Suc i)"
          show "c \<notin> crc ` set (ROM ((H # Hs) ! n))"
          proof (cases n)
            case 0
            with not_H show ?thesis by simp
          next
            case (Suc n')
            with n have "n' < fst G - Suc i" by simp
            from a [rule_format, OF this] Suc show ?thesis by simp
          qed
        qed
      qed
      from True show ?thesis unfolding d q by auto
    next
      case False
      show ?thesis
      proof (cases "i \<le> fst G")
        case le: True
        with False have e: "fst G = i" by simp
        have "FindROMByCRCInGame G c \<noteq> Some (G, k)" if "H = snd G"
          using that not_H FindROMByCRCInGame_None_iff [of G c] by simp
        with False e show ?thesis by auto
      next
        case nle: False
        with False show ?thesis by simp
      qed
    qed
    with step Cons.IH [of "Suc i"] show ?thesis by simp
  qed
qed

lemma FindROMByCRC_None_Some_iff:
  "FindROMByCRC GameList None c = Some (G, k) \<longleftrightarrow>
     in_catalog GameList G \<and> (\<forall>n<fst G. c \<notin> crc ` set (ROM (GameList ! n))) \<and>
     FindROMByCRCInGame G c = Some (G, k)"
  using FindROMByCRC_loop_Some_iff [of GameList 0 c G k]
  by (auto simp: FindROMByCRC_def in_catalog_def)

text \<open>
  The title of the first match: the archive is some entries that no title knows, then an
  entry \<open>e\<close> that \<open>G\<close> lists and no title before \<open>G\<close> in the catalog does.
\<close>

lemma first_match_Some_iff:
  "first_match GameList zf = Some G \<longleftrightarrow>
     (\<exists>pre e suf. zf = pre @ e # suf \<and> first_match GameList pre = None \<and> info_ok e \<and>
        in_catalog GameList G \<and> entry_crc e \<in> crc ` set (ROM (snd G)) \<and>
        (\<forall>n<fst G. entry_crc e \<notin> crc ` set (ROM (GameList ! n))))"
  (is "?L zf \<longleftrightarrow> ?R zf")
proof (induction zf)
  case Nil
  then show ?case by simp
next
  case (Cons x xs)
  have key: "FindROMByCRC GameList None (entry_crc e) = Some (G, k) \<longleftrightarrow>
       in_catalog GameList G \<and> (\<forall>n<fst G. entry_crc e \<notin> crc ` set (ROM (GameList ! n))) \<and>
       FindROMByCRCInGame G (entry_crc e) = Some (G, k)" for e k
    by (rule FindROMByCRC_None_Some_iff)
  have listed: "(\<exists>k. FindROMByCRCInGame G c = Some (G, k)) \<longleftrightarrow> c \<in> crc ` set (ROM (snd G))" for c
    using FindROMByCRCInGame_None_iff [of G c] FindROMByCRCInGame_Some [of G c]
    by (cases "FindROMByCRCInGame G c") auto
  have hit_iff: "(\<exists>k. FindROMByCRC GameList None (entry_crc e) = Some (G, k)) \<longleftrightarrow>
       in_catalog GameList G \<and> entry_crc e \<in> crc ` set (ROM (snd G)) \<and>
       (\<forall>n<fst G. entry_crc e \<notin> crc ` set (ROM (GameList ! n)))" for e
    using key [of e] listed [of "entry_crc e"] by blast
  show ?case
  proof (cases "info_ok x \<and> FindROMByCRC GameList None (entry_crc x) \<noteq> None")
    case True
    then obtain G0 k0 where hit: "info_ok x" "FindROMByCRC GameList None (entry_crc x) = Some (G0, k0)"
      by auto
    then have fm: "first_match GameList (x # xs) = Some G0" by simp
    have not_pre: "first_match GameList (x # pre') \<noteq> None" for pre'
      using hit by simp
    show ?thesis
    proof
      assume "?L (x # xs)"
      with fm have "G = G0" by simp
      with hit hit_iff [of x] have "in_catalog GameList G \<and> entry_crc x \<in> crc ` set (ROM (snd G)) \<and>
       (\<forall>n<fst G. entry_crc x \<notin> crc ` set (ROM (GameList ! n)))" by blast
      with hit(1) have "x # xs = [] @ x # xs \<and> first_match GameList [] = None \<and> info_ok x \<and>
        in_catalog GameList G \<and> entry_crc x \<in> crc ` set (ROM (snd G)) \<and>
        (\<forall>n<fst G. entry_crc x \<notin> crc ` set (ROM (GameList ! n)))" by simp
      then show "?R (x # xs)" by blast
    next
      assume "?R (x # xs)"
      then obtain pre e suf where d: "x # xs = pre @ e # suf" "first_match GameList pre = None"
        "info_ok e" "in_catalog GameList G" "entry_crc e \<in> crc ` set (ROM (snd G))"
        "\<forall>n<fst G. entry_crc e \<notin> crc ` set (ROM (GameList ! n))"
        by blast
      have "pre = []"
      proof (cases pre)
        case Nil then show ?thesis .
      next
        case (Cons y pre')
        with d(1) have "y = x" by simp
        with Cons d(2) not_pre [of pre'] show ?thesis by simp
      qed
      with d(1) have "e = x" by simp
      with d hit_iff [of x] obtain k where "FindROMByCRC GameList None (entry_crc x) = Some (G, k)"
        by blast
      with hit(2) have "G = G0" by simp
      with fm show "?L (x # xs)" by simp
    qed
  next
    case False
    then have skip: "first_match GameList (x # ys) = first_match GameList ys" for ys
      by (auto split: option.splits)
    show ?thesis
    proof
      assume "?L (x # xs)"
      with skip [of xs] Cons.IH obtain pre e suf where
        d: "xs = pre @ e # suf" "first_match GameList pre = None"
        "info_ok e" "in_catalog GameList G" "entry_crc e \<in> crc ` set (ROM (snd G))"
        "\<forall>n<fst G. entry_crc e \<notin> crc ` set (ROM (GameList ! n))"
        by auto
      from d skip [of pre] have "x # xs = (x # pre) @ e # suf \<and> first_match GameList (x # pre) = None \<and>
        info_ok e \<and> in_catalog GameList G \<and> entry_crc e \<in> crc ` set (ROM (snd G)) \<and>
        (\<forall>n<fst G. entry_crc e \<notin> crc ` set (ROM (GameList ! n)))"
        by simp
      then show "?R (x # xs)" by blast
    next
      assume "?R (x # xs)"
      then obtain pre e suf where d: "x # xs = pre @ e # suf" "first_match GameList pre = None"
        "info_ok e" "in_catalog GameList G" "entry_crc e \<in> crc ` set (ROM (snd G))"
        "\<forall>n<fst G. entry_crc e \<notin> crc ` set (ROM (GameList ! n))"
        by blast
      show "?L (x # xs)"
      proof (cases pre)
        case Nil
        with d(1) have "e = x" by simp
        with d hit_iff [of x] have "info_ok x \<and> FindROMByCRC GameList None (entry_crc x) \<noteq> None"
          by auto
        with False show ?thesis by simp
      next
        case (Cons y pre')
        with d(1) have y: "y = x" "xs = pre' @ e # suf" by simp_all
        from d(2) Cons y(1) skip [of pre'] have "first_match GameList pre' = None" by simp
        with y(2) d(3-6) have "?R xs" by blast
        with Cons.IH skip [of xs] show ?thesis by simp
      qed
    qed
  qed
qed

section \<open>The load as a whole\<close>

lemma first_match_nonempty: "first_match GameList zf = Some G \<Longrightarrow> zf \<noteq> []"
  by auto

lemma missing_images_empty_iff:
  "missing_images GameList G zf = [] \<longleftrightarrow>
     (\<forall>k. 0 \<le> k \<and> k < 0 + length (ROM (snd G)) \<longrightarrow> present GameList G zf k)"
  by (auto simp: missing_images_def filter_empty_conv)

lemma LoadROMSetFromZIPFile_closed:
  "LoadROMSetFromZIPFile Map GameList None loadAll alloc mem = Some (None, mem, [Err_UnableToOpen])"
  by (simp add: LoadROMSetFromZIPFile_def ErrorLog_def)

lemma LoadROMSetFromZIPFile_empty:
  "LoadROMSetFromZIPFile Map GameList (Some []) loadAll alloc mem =
     Some (None, mem, [Err_UnableToReadContents])"
  by (simp add: LoadROMSetFromZIPFile_def ErrorLog_def)

lemma LoadROMSetFromZIPFile_unidentified:
  assumes "zf \<noteq> []" and "first_match GameList zf = None"
  shows "LoadROMSetFromZIPFile Map GameList (Some zf) loadAll alloc mem =
           Some (None, mem, [Err_NoSupportedGames])"
  using assms
  by (simp add: LoadROMSetFromZIPFile_def scan_archive_unidentified scan_init_def ErrorLog_def)

lemma LoadROMSetFromZIPFile_missing:
  assumes "first_match GameList zf = Some G" and "missing_images GameList G zf \<noteq> []"
  shows "LoadROMSetFromZIPFile Map GameList (Some zf) loadAll alloc mem =
           Some (None, mem,
             scan_msgs (scan_archive GameList zf) @
             map (\<lambda>i. Err_Missing (file' (ROM (snd G) ! i)) (crc (ROM (snd G) ! i)))
               (missing_images GameList G zf))"
proof -
  let ?s = "scan_archive GameList zf"
  let ?chk = "report_missing (ROM (snd G)) 0 (romsFound ?s) OKAY (scan_msgs ?s)"
  have f: "fst ?chk \<noteq> OKAY"
    using assms(2) missing_images_empty_iff [of GameList G zf]
    by (auto simp: report_missing_err scan_archive_identified(2) [OF assms(1)])
  have m: "snd ?chk = scan_msgs ?s @
             map (\<lambda>i. Err_Missing (file' (ROM (snd G) ! i)) (crc (ROM (snd G) ! i)))
               (missing_images GameList G zf)"
    by (simp add: report_missing_msgs scan_archive_identified(2) [OF assms(1)] missing_images_def)
  show ?thesis
    using first_match_nonempty [OF assms(1)] scan_archive_identified(1) [OF assms(1)] f m
    by (simp add: LoadROMSetFromZIPFile_def Let_def)
qed

lemma LoadROMSetFromZIPFile_complete:
  assumes "first_match GameList zf = Some G" and "missing_images GameList G zf = []"
  shows "LoadROMSetFromZIPFile Map GameList (Some zf) loadAll alloc mem =
     (case alloc (max_fileSize (ROM (snd G)) 0) of
        None \<Rightarrow>
          Some (None, mem, scan_msgs (scan_archive GameList zf) @
                  [Err_InsufficientMemory (max_fileSize (ROM (snd G)) 0)])
      | Some buf \<Rightarrow>
          (case load_archive Map GameList G (max_fileSize (ROM (snd G)) 0) loadAll
                  \<lparr>romsLoaded = (\<lambda>_. False), scratch = buf, memory = mem,
                   load_msgs = scan_msgs (scan_archive GameList zf)\<rparr> zf of
             None \<Rightarrow> None
           | Some t \<Rightarrow>
               if loadAll then
                 Some (if fst (count_loaded (ROM (snd G)) 0 (romsLoaded t) 0 (load_msgs t))
                            < length (ROM (snd G))
                       then None else Some G,
                       memory t,
                       snd (count_loaded (ROM (snd G)) 0 (romsLoaded t) 0 (load_msgs t)))
               else Some (Some G, memory t, load_msgs t)))"
proof -
  let ?s = "scan_archive GameList zf"
  let ?chk = "report_missing (ROM (snd G)) 0 (romsFound ?s) OKAY (scan_msgs ?s)"
  have f: "fst ?chk = OKAY"
    using assms(2) missing_images_empty_iff [of GameList G zf]
    by (auto simp: report_missing_err scan_archive_identified(2) [OF assms(1)])
  have m: "snd ?chk = scan_msgs ?s"
    using assms(2)
    by (simp add: report_missing_msgs scan_archive_identified(2) [OF assms(1)] missing_images_def)
  show ?thesis
    using first_match_nonempty [OF assms(1)] scan_archive_identified(1) [OF assms(1)] f m
    by (simp add: LoadROMSetFromZIPFile_def Let_def ErrorLog_def split: option.splits)
qed

lemma LoadROMSetFromZIPFile_title:
  assumes "LoadROMSetFromZIPFile Map GameList zipFile loadAll alloc mem = Some (Some G, mem', msgs)"
  shows "\<exists>zf. zipFile = Some zf \<and> first_match GameList zf = Some G \<and>
              missing_images GameList G zf = []"
proof (cases zipFile)
  case None
  with assms show ?thesis by (simp add: LoadROMSetFromZIPFile_closed)
next
  case (Some zf)
  show ?thesis
  proof (cases "first_match GameList zf")
    case None
    with assms Some show ?thesis
      by (cases "zf = []")
        (simp_all add: LoadROMSetFromZIPFile_empty LoadROMSetFromZIPFile_unidentified)
  next
    case H: (Some H)
    show ?thesis
    proof (cases "missing_images GameList H zf = []")
      case False
      with assms Some H show ?thesis by (simp add: LoadROMSetFromZIPFile_missing)
    next
      case True
      note eq = assms [unfolded Some LoadROMSetFromZIPFile_complete [OF H True]]
      have "H = G"
      proof (cases "alloc (max_fileSize (ROM (snd H)) 0)")
        case None
        with eq show ?thesis by simp
      next
        case buf: (Some buf)
        show ?thesis
        proof (cases "load_archive Map GameList H (max_fileSize (ROM (snd H)) 0) loadAll
                  \<lparr>romsLoaded = (\<lambda>_. False), scratch = buf, memory = mem,
                   load_msgs = scan_msgs (scan_archive GameList zf)\<rparr> zf")
          case None
          with eq buf show ?thesis by simp
        next
          case (Some t)
          with eq buf show ?thesis by (cases loadAll) (simp_all split: if_splits)
        qed
      qed
      with Some H True show ?thesis by simp
    qed
  qed
qed

text \<open>
  Claim C10: when \<open>LoadROMSetFromZIPFile\<close> returns a pointer that is not null, the pointer
  is an entry of the catalog \<open>GameList\<close> passed in, and the one where the first known
  checksum was found: the archive is some entries that no title knows, then an entry whose
  checksum this title lists and no title before it in the catalog does.
\<close>

theorem LoadROMSetFromZIPFile_returns_catalog_entry:
  assumes "LoadROMSetFromZIPFile Map GameList zipFile loadAll alloc mem = Some (Some G, mem', msgs)"
  shows "fst G < length GameList \<and> GameList ! fst G = snd G \<and>
         (\<exists>zf pre e suf. zipFile = Some zf \<and> zf = pre @ e # suf \<and>
            (\<forall>x\<in>set pre. info_ok x \<longrightarrow> (\<forall>H\<in>set GameList. entry_crc x \<notin> crc ` set (ROM H))) \<and>
            info_ok e \<and> entry_crc e \<in> crc ` set (ROM (snd G)) \<and>
            (\<forall>n<fst G. entry_crc e \<notin> crc ` set (ROM (GameList ! n))))"
proof -
  from LoadROMSetFromZIPFile_title [OF assms] obtain zf where
    zf: "zipFile = Some zf" "first_match GameList zf = Some G" by blast
  from zf(2) [unfolded first_match_Some_iff first_match_None_iff] obtain pre e suf where
    "zf = pre @ e # suf"
    "\<forall>x\<in>set pre. info_ok x \<longrightarrow> (\<forall>H\<in>set GameList. entry_crc x \<notin> crc ` set (ROM H))"
    "info_ok e" "in_catalog GameList G" "entry_crc e \<in> crc ` set (ROM (snd G))"
    "\<forall>n<fst G. entry_crc e \<notin> crc ` set (ROM (GameList ! n))"
    by blast
  with zf(1) show ?thesis unfolding in_catalog_def by blast
qed

text \<open>
  Claim C2: when the archive cannot be opened, when no entry identifies a title, or when an
  image of the identified title is missing from the archive, the load returns null and the
  destination memory is what it was: nothing is written to a destination region unless
  the scan has found every image of the identified title.
\<close>

theorem LoadROMSetFromZIPFile_incomplete_leaves_memory:
  assumes "\<forall>zf. zipFile = Some zf \<longrightarrow>
             first_match GameList zf = None \<or>
             (\<exists>G. first_match GameList zf = Some G \<and> missing_images GameList G zf \<noteq> [])"
  shows "\<exists>msgs. LoadROMSetFromZIPFile Map GameList zipFile loadAll alloc mem = Some (None, mem, msgs)"
proof (cases zipFile)
  case None
  then show ?thesis by (simp add: LoadROMSetFromZIPFile_closed)
next
  case (Some zf)
  from assms [rule_format, OF Some] show ?thesis
  proof (elim disjE exE conjE)
    assume u: "first_match GameList zf = None"
    show ?thesis
    proof (cases "zf = []")
      case True
      then show ?thesis unfolding Some by (simp add: LoadROMSetFromZIPFile_empty)
    next
      case False
      show ?thesis unfolding Some LoadROMSetFromZIPFile_unidentified [OF False u] by simp
    qed
  next
    fix G assume "first_match GameList zf = Some G" "missing_images GameList G zf \<noteq> []"
    then show ?thesis unfolding Some by (simp add: LoadROMSetFromZIPFile_missing)
  qed
qed


text \<open>
  Claim C5: when a title is identified and at least one of its images is not found by the
  scan, the load returns null, and its messages hold one missing-image message for each
  absent image, in the order of the catalog, and no other missing-image message.
\<close>

theorem LoadROMSetFromZIPFile_reports_every_missing:
  assumes "first_match GameList zf = Some G" and "missing_images GameList G zf \<noteq> []"
  shows "\<exists>msgs. LoadROMSetFromZIPFile Map GameList (Some zf) loadAll alloc mem = Some (None, mem, msgs) \<and>
           filter is_Missing msgs =
             map (\<lambda>i. Err_Missing (file' (ROM (snd G) ! i)) (crc (ROM (snd G) ! i)))
               (missing_images GameList G zf)"
proof -
  have "filter is_Missing (map (\<lambda>i. Err_Missing (file' (ROM (snd G) ! i)) (crc (ROM (snd G) ! i))) xs) =
        map (\<lambda>i. Err_Missing (file' (ROM (snd G) ! i)) (crc (ROM (snd G) ! i))) xs" for xs
    by (induction xs) simp_all
  then show ?thesis
    by (simp add: LoadROMSetFromZIPFile_missing [OF assms] scan_archive_identified(4) [OF assms(1)])
qed

section \<open>What the load returns and emits\<close>

lemma scan_archive_Game: "Game (scan_archive GameList zf) = first_match GameList zf"
proof (cases "first_match GameList zf")
  case None
  then show ?thesis by (simp add: scan_archive_unidentified scan_init_def)
next
  case (Some G)
  then show ?thesis by (simp add: scan_archive_identified(1))
qed

lemma first_match_append:
  "first_match GameList zf = Some G \<Longrightarrow> first_match GameList (zf @ zf') = Some G"
  by (induction zf) (auto split: if_splits option.splits)

lemma first_match_take:
  assumes "first_match GameList (take n zf) = Some H"
  shows "first_match GameList zf = Some H"
  using first_match_append [OF assms, of "drop n zf"] by simp

lemma LoadROMSetFromZIPFile_loaded:
  assumes "LoadROMSetFromZIPFile Map GameList (Some zf) loadAll alloc mem = Some (r, mem', msgs)"
    and "first_match GameList zf = Some G" and "missing_images GameList G zf = []"
    and "alloc (max_fileSize (ROM (snd G)) 0) = Some buf"
  obtains t where
    "load_archive Map GameList G (max_fileSize (ROM (snd G)) 0) loadAll
       \<lparr>romsLoaded = (\<lambda>_. False), scratch = buf, memory = mem,
        load_msgs = scan_msgs (scan_archive GameList zf)\<rparr> zf = Some t"
    and "mem' = memory t"
    and "loadAll \<Longrightarrow>
           r = (if fst (count_loaded (ROM (snd G)) 0 (romsLoaded t) 0 (load_msgs t))
                     < length (ROM (snd G)) then None else Some G) \<and>
           msgs = snd (count_loaded (ROM (snd G)) 0 (romsLoaded t) 0 (load_msgs t))"
    and "\<not> loadAll \<Longrightarrow> r = Some G \<and> msgs = load_msgs t"
proof -
  note eq = assms(1) [unfolded LoadROMSetFromZIPFile_complete [OF assms(2,3)] assms(4) option.case]
  show thesis
  proof (cases "load_archive Map GameList G (max_fileSize (ROM (snd G)) 0) loadAll
       \<lparr>romsLoaded = (\<lambda>_. False), scratch = buf, memory = mem,
        load_msgs = scan_msgs (scan_archive GameList zf)\<rparr> zf")
    case None
    with eq show ?thesis by simp
  next
    case (Some t)
    show ?thesis
    proof (rule that [OF Some])
      show "mem' = memory t" using eq Some by (cases loadAll) simp_all
      show "loadAll \<Longrightarrow>
           r = (if fst (count_loaded (ROM (snd G)) 0 (romsLoaded t) 0 (load_msgs t))
                     < length (ROM (snd G)) then None else Some G) \<and>
           msgs = snd (count_loaded (ROM (snd G)) 0 (romsLoaded t) 0 (load_msgs t))"
        using eq Some by simp
      show "\<not> loadAll \<Longrightarrow> r = Some G \<and> msgs = load_msgs t"
        using eq Some by simp
    qed
  qed
qed

lemma LoadROMSetFromZIPFile_warnings:
  assumes "LoadROMSetFromZIPFile Map GameList (Some zf) loadAll alloc mem = Some (r, mem', msgs)"
    and "first_match GameList zf = Some G"
  shows "filter is_MultipleGames msgs =
           (if \<exists>e\<in>set zf. is_foreign GameList G e then [Err_MultipleGames (title (snd G))] else [])"
    and "r = None \<or> r = Some G"
proof -
  let ?w = "if \<exists>e\<in>set zf. is_foreign GameList G e then [Err_MultipleGames (title (snd G))] else []"
  note sw = scan_archive_identified(3) [OF assms(2)]
  have nm: "filter is_MultipleGames
              (map (\<lambda>i. Err_Missing (file' (ROM (snd G) ! i)) (crc (ROM (snd G) ! i))) xs) = []" for xs
    by (induction xs) simp_all
  have "filter is_MultipleGames msgs = ?w \<and> (r = None \<or> r = Some G)"
  proof (cases "missing_images GameList G zf = []")
    case False
    from assms(1) [unfolded LoadROMSetFromZIPFile_missing [OF assms(2) False]]
    show ?thesis using sw nm by auto
  next
    case True
    show ?thesis
    proof (cases "alloc (max_fileSize (ROM (snd G)) 0)")
      case None
      from assms(1) [unfolded LoadROMSetFromZIPFile_complete [OF assms(2) True] None option.case]
      show ?thesis using sw by auto
    next
      case (Some buf)
      from LoadROMSetFromZIPFile_loaded [OF assms(1,2) True Some] obtain t where
        t: "load_archive Map GameList G (max_fileSize (ROM (snd G)) 0) loadAll
             \<lparr>romsLoaded = (\<lambda>_. False), scratch = buf, memory = mem,
              load_msgs = scan_msgs (scan_archive GameList zf)\<rparr> zf = Some t"
        and s: "loadAll \<Longrightarrow>
           r = (if fst (count_loaded (ROM (snd G)) 0 (romsLoaded t) 0 (load_msgs t))
                     < length (ROM (snd G)) then None else Some G) \<and>
           msgs = snd (count_loaded (ROM (snd G)) 0 (romsLoaded t) 0 (load_msgs t))"
        and n: "\<not> loadAll \<Longrightarrow> r = Some G \<and> msgs = load_msgs t"
        by blast
      from load_archive_msgs [OF t] have "filter is_MultipleGames (load_msgs t) = ?w"
        using sw by simp
      then show ?thesis using s n by (cases loadAll) (simp_all add: count_loaded_msgs)
    qed
  qed
  then show "filter is_MultipleGames msgs = ?w" and "r = None \<or> r = Some G" by simp_all
qed

lemma LoadROMSetFromZIPFile_returns:
  assumes "\<forall>G\<in>set GameList. \<forall>r\<in>set (ROM G). (0 < groupSize r \<or> fileSize r = 0) \<and> fileSize r < 0x80000000"
  shows "\<exists>x. LoadROMSetFromZIPFile Map GameList zipFile loadAll alloc mem = Some x"
proof (cases zipFile)
  case None
  then show ?thesis by (simp add: LoadROMSetFromZIPFile_closed)
next
  case (Some zf)
  show ?thesis
  proof (cases "first_match GameList zf")
    case None
    then show ?thesis unfolding Some
      by (cases "zf = []")
        (simp_all add: LoadROMSetFromZIPFile_empty LoadROMSetFromZIPFile_unidentified)
  next
    case G: (Some G)
    from first_match_in_catalog [OF G] have cat: "in_catalog GameList G" .
    then have "snd G \<in> set GameList" by (metis in_catalog_def nth_mem)
    from bspec [OF assms this]
    have gs: "\<forall>r\<in>set (ROM (snd G)). (0 < groupSize r \<or> fileSize r = 0) \<and> fileSize r < 0x80000000" .
    show ?thesis
    proof (cases "missing_images GameList G zf = []")
      case False
      then show ?thesis unfolding Some by (simp add: LoadROMSetFromZIPFile_missing [OF G])
    next
      case True
      show ?thesis
      proof (cases "alloc (max_fileSize (ROM (snd G)) 0)")
        case None
        then show ?thesis unfolding Some LoadROMSetFromZIPFile_complete [OF G True] by simp
      next
        case buf: (Some buf)
        from load_archive_returns [OF cat gs] obtain t where
          "load_archive Map GameList G (max_fileSize (ROM (snd G)) 0) loadAll
             \<lparr>romsLoaded = (\<lambda>_. False), scratch = buf, memory = mem,
              load_msgs = scan_msgs (scan_archive GameList zf)\<rparr> zf = Some t"
          by blast
        then show ?thesis unfolding Some LoadROMSetFromZIPFile_complete [OF G True] buf
          by simp
      qed
    qed
  qed
qed

lemma LoadROMSetFromZIPFile_returns_identified:
  assumes "first_match GameList zf = Some G"
    and "\<forall>r\<in>set (ROM (snd G)). (0 < groupSize r \<or> fileSize r = 0) \<and> fileSize r < 0x80000000"
  shows "\<exists>x. LoadROMSetFromZIPFile Map GameList (Some zf) loadAll alloc mem = Some x"
proof (cases "missing_images GameList G zf = []")
  case False
  then show ?thesis by (simp add: LoadROMSetFromZIPFile_missing [OF assms(1)])
next
  case True
  show ?thesis
  proof (cases "alloc (max_fileSize (ROM (snd G)) 0)")
    case None
    then show ?thesis unfolding LoadROMSetFromZIPFile_complete [OF assms(1) True] by simp
  next
    case buf: (Some buf)
    from load_archive_returns [OF first_match_in_catalog [OF assms(1)] assms(2)] obtain t where
      "load_archive Map GameList G (max_fileSize (ROM (snd G)) 0) loadAll
         \<lparr>romsLoaded = (\<lambda>_. False), scratch = buf, memory = mem,
          load_msgs = scan_msgs (scan_archive GameList zf)\<rparr> zf = Some t"
      by blast
    then show ?thesis unfolding LoadROMSetFromZIPFile_complete [OF assms(1) True] buf
      by simp
  qed
qed

lemma LoadROMSetFromZIPFile_lenient:
  assumes "\<not> loadAll" and "LoadROMSetFromZIPFile Map GameList (Some zf) loadAll alloc mem = Some (r, mem', msgs)"
    and "first_match GameList zf = Some G" and "missing_images GameList G zf = []"
    and "alloc (max_fileSize (ROM (snd G)) 0) = Some buf"
  shows "r = Some G"
  using LoadROMSetFromZIPFile_loaded [OF assms(2-5)] assms(1) by blast

section \<open>Foreign entries do not matter\<close>

lemma LoadROM_msgs_indep:
  "map_option (\<lambda>(res, buf', mem', l). (res, buf', mem'))
     (LoadROM buf bufSize Map R e loadAll mem msgs) =
   map_option (\<lambda>(res, buf', mem', l). (res, buf', mem'))
     (LoadROM buf bufSize Map R e loadAll mem msgs')"
  by (simp add: LoadROM_def Let_def ErrorLog_def split: option.splits)

lemma load_entry_msgs_indep:
  "map_option (\<lambda>t. (romsLoaded t, scratch t, memory t))
     (load_entry Map GameList G maxSize loadAll s e) =
   map_option (\<lambda>t. (romsLoaded t, scratch t, memory t))
     (load_entry Map GameList G maxSize loadAll (s\<lparr>load_msgs := l\<rparr>) e)"
proof (cases "is_own GameList G e")
  case False
  then show ?thesis by (simp add: load_entry_skip)
next
  case True
  then obtain j where j: "is_image GameList G e j" using is_own_image by blast
  let ?A = "LoadROM (scratch s) maxSize Map (ROM (snd G) ! j) e loadAll (memory s) (load_msgs s)"
  let ?B = "LoadROM (scratch s) maxSize Map (ROM (snd G) ! j) e loadAll (memory s) l"
  have ab: "map_option (\<lambda>(res, buf', mem', l). (res, buf', mem')) ?A =
            map_option (\<lambda>(res, buf', mem', l). (res, buf', mem')) ?B"
    by (rule LoadROM_msgs_indep)
  show ?thesis
  proof (cases ?A)
    case None
    with ab have "?B = None" by simp
    with None show ?thesis by (simp add: load_entry_image [OF j])
  next
    case (Some x)
    obtain res b m lA where x: "x = (res, b, m, lA)" by (cases x) auto
    from ab Some x obtain lB where "?B = Some (res, b, m, lB)" by (cases ?B) auto
    with Some x show ?thesis by (simp add: load_entry_image [OF j])
  qed
qed

lemma load_archive_msgs_indep:
  "romsLoaded s = romsLoaded s' \<Longrightarrow> scratch s = scratch s' \<Longrightarrow> memory s = memory s' \<Longrightarrow>
   map_option (\<lambda>t. (romsLoaded t, scratch t, memory t))
     (load_archive Map GameList G maxSize loadAll s zf) =
   map_option (\<lambda>t. (romsLoaded t, scratch t, memory t))
     (load_archive Map GameList G maxSize loadAll s' zf)"
proof (induction zf arbitrary: s s')
  case Nil
  then show ?case by simp
next
  case (Cons e es)
  have s': "s\<lparr>load_msgs := load_msgs s'\<rparr> = s'" using Cons.prems by simp
  have e: "map_option (\<lambda>t. (romsLoaded t, scratch t, memory t))
             (load_entry Map GameList G maxSize loadAll s e) =
           map_option (\<lambda>t. (romsLoaded t, scratch t, memory t))
             (load_entry Map GameList G maxSize loadAll s' e)"
    using load_entry_msgs_indep [of Map GameList G maxSize loadAll s e "load_msgs s'"]
    unfolding s' .
  show ?case
  proof (cases "load_entry Map GameList G maxSize loadAll s e")
    case None
    with e have "load_entry Map GameList G maxSize loadAll s' e = None" by simp
    with None show ?thesis by simp
  next
    case (Some t)
    with e obtain t' where t': "load_entry Map GameList G maxSize loadAll s' e = Some t'"
      "romsLoaded t = romsLoaded t'" "scratch t = scratch t'" "memory t = memory t'"
      by (cases "load_entry Map GameList G maxSize loadAll s' e") auto
    from Cons.IH [OF t'(2,3,4)] Some t'(1) show ?thesis by simp
  qed
qed

lemma count_loaded_msgs_indep:
  "fst (count_loaded rs i loaded n msgs) = fst (count_loaded rs i loaded n msgs')"
  by (induction rs arbitrary: i n msgs msgs') simp_all

lemma first_match_own:
  "first_match GameList zf = Some G \<Longrightarrow>
     first_match GameList (filter (is_own GameList G) zf) = Some G"
proof (induction zf)
  case Nil
  then show ?case by simp
next
  case (Cons e es)
  have cat: "in_catalog GameList G" using Cons.prems by (rule first_match_in_catalog)
  from Cons.prems consider
    (skip) "\<not> info_ok e \<or> FindROMByCRC GameList None (entry_crc e) = None"
      "first_match GameList es = Some G"
    | (hit) k where "info_ok e" "FindROMByCRC GameList None (entry_crc e) = Some (G, k)"
    by (auto split: if_splits option.splits)
  then show ?case
  proof cases
    case skip
    from not_image_before_match(1) [OF skip(1) cat] have "\<not> is_own GameList G e"
      using is_own_image by blast
    with Cons.IH [OF skip(2)] show ?thesis by simp
  next
    case hit
    from image_at_match(1) [OF hit, of k] have "is_own GameList G e"
      using is_image_own by blast
    with hit show ?thesis by simp
  qed
qed

lemma present_own:
  "present GameList G (filter (is_own GameList G) zf) = present GameList G zf"
  using is_image_own by (fastforce simp: present_def fun_eq_iff)

lemma missing_images_own:
  "missing_images GameList G (filter (is_own GameList G) zf) = missing_images GameList G zf"
  by (simp add: missing_images_def present_own)

lemma LoadROMSetFromZIPFile_own:
  assumes "first_match GameList zf = Some G"
  shows "map_option (\<lambda>(r, mem', msgs). (r, mem'))
           (LoadROMSetFromZIPFile Map GameList (Some zf) loadAll alloc mem) =
         map_option (\<lambda>(r, mem', msgs). (r, mem'))
           (LoadROMSetFromZIPFile Map GameList (Some (filter (is_own GameList G) zf)) loadAll alloc mem)"
proof -
  let ?zf = "filter (is_own GameList G) zf"
  note G' = first_match_own [OF assms]
  show ?thesis
  proof (cases "missing_images GameList G zf = []")
    case False
    then have "missing_images GameList G ?zf \<noteq> []" by (simp add: missing_images_own)
    from LoadROMSetFromZIPFile_missing [OF assms False]
      LoadROMSetFromZIPFile_missing [OF G' this]
    show ?thesis by simp
  next
    case True
    then have True': "missing_images GameList G ?zf = []" by (simp add: missing_images_own)
    note c = LoadROMSetFromZIPFile_complete [OF assms True]
      LoadROMSetFromZIPFile_complete [OF G' True']
    show ?thesis
    proof (cases "alloc (max_fileSize (ROM (snd G)) 0)")
      case None
      then show ?thesis unfolding c by simp
    next
      case (Some buf)
      let ?s = "\<lparr>romsLoaded = (\<lambda>_. False), scratch = buf, memory = mem,
                 load_msgs = scan_msgs (scan_archive GameList zf)\<rparr>"
      let ?s' = "\<lparr>romsLoaded = (\<lambda>_. False), scratch = buf, memory = mem,
                 load_msgs = scan_msgs (scan_archive GameList ?zf)\<rparr>"
      let ?L = "load_archive Map GameList G (max_fileSize (ROM (snd G)) 0) loadAll"
      have "map_option (\<lambda>t. (romsLoaded t, scratch t, memory t)) (?L ?s zf) =
            map_option (\<lambda>t. (romsLoaded t, scratch t, memory t)) (?L ?s ?zf)"
        by (subst load_archive_own) (rule refl)
      also have "\<dots> = map_option (\<lambda>t. (romsLoaded t, scratch t, memory t)) (?L ?s' ?zf)"
        by (rule load_archive_msgs_indep) simp_all
      finally have eq: "map_option (\<lambda>t. (romsLoaded t, scratch t, memory t)) (?L ?s zf) =
            map_option (\<lambda>t. (romsLoaded t, scratch t, memory t)) (?L ?s' ?zf)" .
      show ?thesis
      proof (cases "?L ?s zf")
        case None
        with eq have "?L ?s' ?zf = None" by simp
        with None show ?thesis unfolding c Some by simp
      next
        case t: (Some t)
        with eq obtain t' where t': "?L ?s' ?zf = Some t'"
          "romsLoaded t = romsLoaded t'" "memory t = memory t'"
          by (cases "?L ?s' ?zf") auto
        show ?thesis unfolding c Some option.case t t'(1)
          using t'(2,3)
            count_loaded_msgs_indep [of "ROM (snd G)" 0 "romsLoaded t'" 0 "load_msgs t" "load_msgs t'"]
          by simp
      qed
    qed
  qed
qed

section \<open>The extraction pass against the placement of the specification\<close>

lemma length_swap_bytes: "length (swap_bytes ds) = length ds"
  by (induction ds rule: swap_bytes.induct) simp_all

lemma swap_bytes_nth:
  "even (length ds) \<Longrightarrow> i < length ds \<Longrightarrow>
     swap_bytes ds ! i = (if even i then ds ! Suc i else ds ! (i - 1))"
proof (induction ds arbitrary: i rule: swap_bytes.induct)
  case (1 a b ds)
  consider "i = 0" | "i = 1" | k where "i = Suc (Suc k)"
    by (metis One_nat_def not0_implies_Suc)
  then show ?case
  proof cases
    case 1 then show ?thesis by simp
  next
    case 2 then show ?thesis by simp
  next
    case 3
    with 1 have "swap_bytes ds ! k = (if even k then ds ! Suc k else ds ! (k - 1))" by simp
    moreover have "Suc k - 1 = Suc (k - 1)" if "odd k" using that by (auto elim: oddE)
    ultimately show ?thesis using 3 by (auto simp: nth_Cons')
  qed
qed simp_all

lemma Place_groups_Nil: "Place_groups g st [] c mem = mem"
  by (subst Place_groups.simps) simp

lemma Place_groups_step:
  "ds \<noteq> [] \<Longrightarrow> 0 < g \<Longrightarrow>
   Place_groups g st ds c mem =
     Place_groups g st (drop g ds) (c + st)
       (\<lambda>a. if c \<le> a \<and> a < c + length (take g ds) then ds ! (a - c) else mem a)"
  by (subst Place_groups.simps) simp

lemma LoadROM_find_map_eq:
  "LoadROM_find_map Map r = map_of (map (\<lambda>m. (map_region m, ptr m)) Map) r"
  by (induction Map) simp_all

lemma LoadROM_place_Place_groups:
  assumes g: "0 < groupSize R"
    and len: "length ds = unat (fileSize R)"
    and buf: "\<forall>i<length ds. buf i = ds ! i"
  shows "unat (fileSize R) = unat srcIdx + n * unat (groupSize R) \<Longrightarrow>
         (0 < n \<longrightarrow> unat destIdx + (n - 1) * unat (stride R) + unat (groupSize R) \<le> 2 ^ 32) \<Longrightarrow>
         LoadROM_place R buf p mem srcIdx destIdx =
           Some (Place_groups (unat (groupSize R)) (unat (stride R)) (drop (unat srcIdx) ds)
                   (p + unat destIdx) mem)"
proof (induction n arbitrary: srcIdx destIdx mem)
  case 0
  then have "\<not> srcIdx < fileSize R" by (simp add: word_less_nat_alt)
  with 0 len show ?case by (simp add: LoadROM_place_done Place_groups_Nil)
next
  case (Suc n)
  let ?g = "unat (groupSize R)" and ?st = "unat (stride R)" and ?s = "unat srcIdx"
  have gpos: "0 < ?g" using g by (simp add: word_less_nat_alt)
  with Suc.prems(1) have lt: "?s < unat (fileSize R)" and sg: "?s + ?g \<le> unat (fileSize R)"
    by simp_all
  then have slt: "srcIdx < fileSize R" by (simp add: word_less_nat_alt)
  have F: "unat (fileSize R) < 2 ^ 32" by (rule unat_lt32)
  have dg: "unat destIdx + ?g \<le> 2 ^ 32" using Suc.prems(2) by simp
  have s32: "?s + ?g < 2 ^ 32" using sg F by simp
  then have us: "unat (srcIdx + groupSize R) = ?s + ?g" by (rule unat_add_nowrap)
  let ?mem = "memcpy mem (p + unat destIdx) (\<lambda>i. buf (?s + i)) ?g"
  have step: "LoadROM_place R buf p mem srcIdx destIdx =
              LoadROM_place R buf p ?mem (srcIdx + groupSize R) (destIdx + stride R)"
    using slt dg s32 by (rule LoadROM_place_step)
  have ne: "drop ?s ds \<noteq> []" using lt len by simp
  have tk: "length (take ?g (drop ?s ds)) = ?g" using sg len by simp
  have "(\<lambda>a. if p + unat destIdx \<le> a \<and> a < p + unat destIdx + length (take ?g (drop ?s ds))
             then drop ?s ds ! (a - (p + unat destIdx)) else mem a) = ?mem"
  proof
    fix a
    show "(if p + unat destIdx \<le> a \<and> a < p + unat destIdx + length (take ?g (drop ?s ds))
             then drop ?s ds ! (a - (p + unat destIdx)) else mem a) = ?mem a"
    proof (cases "p + unat destIdx \<le> a \<and> a < p + unat destIdx + ?g")
      case False
      then show ?thesis unfolding tk memcpy_def by auto
    next
      case True
      with sg len have i: "?s + (a - (p + unat destIdx)) < length ds" by arith
      then have "drop ?s ds ! (a - (p + unat destIdx)) = ds ! (?s + (a - (p + unat destIdx)))"
        by simp
      also have "\<dots> = buf (?s + (a - (p + unat destIdx)))" using buf i by simp
      finally show ?thesis unfolding tk memcpy_def using True by simp
    qed
  qed
  then have spec: "Place_groups ?g ?st (drop ?s ds) (p + unat destIdx) mem =
                   Place_groups ?g ?st (drop (?s + ?g) ds) (p + unat destIdx + ?st) ?mem"
    using Place_groups_step [OF ne gpos, of ?st "p + unat destIdx" mem]
    by (simp add: add.commute)
  show ?case
  proof (cases n)
    case 0
    with Suc.prems(1) have e: "?s + ?g = unat (fileSize R)" by simp
    then have "\<not> srcIdx + groupSize R < fileSize R" by (simp add: word_less_nat_alt us)
    with step have "LoadROM_place R buf p mem srcIdx destIdx = Some ?mem"
      by (simp add: LoadROM_place_done)
    moreover have "drop (?s + ?g) ds = []" using e len by simp
    ultimately show ?thesis using spec by (simp add: Place_groups_Nil)
  next
    case (Suc m)
    with Suc.prems(2) gpos have "unat destIdx + ?st < 2 ^ 32" by simp
    then have ud: "unat (destIdx + stride R) = unat destIdx + ?st" by (rule unat_add_nowrap)
    have a1: "unat (fileSize R) = unat (srcIdx + groupSize R) + n * ?g"
      using Suc.prems(1) by (simp add: us)
    have a2: "0 < n \<longrightarrow> unat (destIdx + stride R) + (n - 1) * ?st + ?g \<le> 2 ^ 32"
      using Suc.prems(2) Suc by (simp add: ud)
    from Suc.IH [OF a1 a2, of ?mem] step spec show ?thesis by (simp add: us ud add.assoc)
  qed
qed

lemma is_image_image_of:
  assumes "in_catalog GameList G"
  shows "is_image GameList G e i \<longleftrightarrow> image_of (snd G) e = Some i"
proof
  let ?P = "\<lambda>r. crc r \<noteq> entry_crc e"
  assume "is_image GameList G e i"
  then have h: "info_ok e" "i < length (ROM (snd G))" "crc (ROM (snd G) ! i) = entry_crc e"
    "\<forall>j<i. crc (ROM (snd G) ! j) \<noteq> entry_crc e"
    by (simp_all add: is_image_iff [OF assms])
  then have "takeWhile ?P (ROM (snd G)) = take i (ROM (snd G))"
    by (intro takeWhile_eq_take_P_nth) auto
  then have "length (takeWhile ?P (ROM (snd G))) = i" using h(2) by simp
  moreover have "entry_crc e \<in> crc ` set (ROM (snd G))" using h(2,3) by (metis imageI nth_mem)
  ultimately show "image_of (snd G) e = Some i" using h(1) by (simp add: image_of_def)
next
  let ?P = "\<lambda>r. crc r \<noteq> entry_crc e"
  assume "image_of (snd G) e = Some i"
  then have h: "info_ok e" "entry_crc e \<in> crc ` set (ROM (snd G))"
    "i = length (takeWhile ?P (ROM (snd G)))"
    by (auto simp: image_of_def split: if_splits)
  have lt: "length (takeWhile ?P (ROM (snd G))) < length (ROM (snd G))"
  proof (rule ccontr)
    assume "\<not> length (takeWhile ?P (ROM (snd G))) < length (ROM (snd G))"
    with length_takeWhile_le [of ?P "ROM (snd G)"]
    have "length (takeWhile ?P (ROM (snd G))) = length (ROM (snd G))" by simp
    with takeWhile_eq_take [of ?P "ROM (snd G)"] have "takeWhile ?P (ROM (snd G)) = ROM (snd G)"
      by simp
    with h(2) show False by (simp only: takeWhile_eq_all_conv) auto
  qed
  from nth_length_takeWhile [OF lt] have "crc (ROM (snd G) ! i) = entry_crc e" by (simp add: h(3))
  moreover have "crc (ROM (snd G) ! j) \<noteq> entry_crc e" if "j < i" for j
  proof -
    from that h(3) have "takeWhile ?P (ROM (snd G)) ! j = ROM (snd G) ! j"
      by (simp add: takeWhile_nth)
    moreover have "takeWhile ?P (ROM (snd G)) ! j \<in> set (takeWhile ?P (ROM (snd G)))"
      using that h(3) by simp
    ultimately have "ROM (snd G) ! j \<in> set (takeWhile ?P (ROM (snd G)))" by simp
    from set_takeWhileD [OF this] show ?thesis by simp
  qed
  ultimately show "is_image GameList G e i" using h(1,3) lt by (simp add: is_image_iff [OF assms])
qed


lemma word_of_int_read:
  assumes "n \<le> unat (len :: UINT32)" and "F < (0x80000000 :: UINT32)"
  shows "(word_of_int (if ok then int n else - 1) = F) \<longleftrightarrow> ok \<and> n = unat F"
proof (cases ok)
  case True
  have "n < 2 ^ LENGTH(32)" using assms(1) unat_lt32 [of len] by simp
  then have "unat (of_nat n :: UINT32) = n" by (simp add: unat_of_nat)
  then have "(of_nat n :: UINT32) = F \<longleftrightarrow> n = unat F" by (simp add: word_unat_eq_iff)
  with True show ?thesis by simp
next
  case False
  have "F \<noteq> - 1" using assms(2) by auto
  with False show ?thesis by auto
qed

lemma swap_pairs_swap_bytes:
  assumes "even (length ds)" and "\<forall>k<length ds. buf k = ds ! k" and "i < length ds"
  shows "swap_pairs (length ds) buf i = swap_bytes ds ! i"
proof (cases "even i")
  case True
  with assms(1,3) have s: "Suc i < length ds" by presburger
  have "swap_bytes ds ! i = ds ! Suc i" using swap_bytes_nth [OF assms(1,3)] True by simp
  also have "\<dots> = buf (Suc i)" using assms(2) s by simp
  finally show ?thesis using assms(3) True by (simp add: swap_pairs_def)
next
  case False
  then have s: "i - 1 < length ds" using assms(3) by simp
  have "swap_bytes ds ! i = ds ! (i - 1)" using swap_bytes_nth [OF assms(1,3)] False by simp
  also have "\<dots> = buf (i - 1)" using assms(2) s by simp
  finally show ?thesis using assms(3) False by (simp add: swap_pairs_def)
qed

lemma LoadROM_places_aux:
  assumes wf: "well_formed R"
    and ret: "LoadROM buf maxSize Map R e loadAll mem msgs = Some (res, buf', mem', msgs')"
    and ds: "ds = take (unat maxSize) (entry_data e)"
  shows "mem' =
     (if name_ok e \<and> uncompressed_size e = unat (fileSize R) \<and> open_ok e \<and> read_ok e \<and>
         length ds = unat (fileSize R)
      then Place Map R ds mem else mem)"
proof -
  let ?n = "min (unat maxSize) (length (entry_data e))"
  let ?buf1 = "\<lambda>i. if i < ?n then entry_data e ! i else buf i"
  let ?F = "unat (fileSize R)"
  have F: "fileSize R < 0x80000000" using wf by (simp add: well_formed_def)
  have rd: "unzReadCurrentFile e buf maxSize = (if read_ok e then int ?n else - 1, ?buf1)"
    by (simp add: unzReadCurrentFile_def Let_def)
  have cmp: "(word_of_int (fst (unzReadCurrentFile e buf maxSize)) = fileSize R) \<longleftrightarrow>
             read_ok e \<and> ?n = ?F"
    unfolding rd fst_conv by (rule word_of_int_read [where len = maxSize, OF _ F]) simp
  have lds: "length ds = ?n" by (simp add: ds min.commute)
  have b1: "\<forall>i<length ds. ?buf1 i = ds ! i" by (simp add: ds)
  show ?thesis
  proof (cases "name_ok e \<and> uncompressed_size e = ?F \<and> open_ok e \<and> read_ok e \<and> length ds = ?F")
    case False
    then have "\<not> (name_ok e \<and> uncompressed_size e = ?F \<and> open_ok e \<and> read_ok e \<and> ?n = ?F)"
      unfolding lds .
    then have "LoadROM buf maxSize Map R e loadAll mem msgs =
       Some (FAIL, (if name_ok e \<and> uncompressed_size e = ?F \<and> open_ok e then ?buf1 else buf), mem,
             msgs @ [if \<not> name_ok e then Err_NoFileName
                     else if uncompressed_size e \<noteq> ?F then Err_IncorrectSize (entry_name e) (fileSize R)
                     else Err_UnableToRead (entry_name e)])"
      using cmp by (auto simp: LoadROM_def ErrorLog_def Let_def rd)
    with ret have "mem' = mem" by simp
    then show ?thesis using False by (simp only: if_False)
  next
    case True
    then have acc: "name_ok e" "uncompressed_size e = ?F" "open_ok e" "read_ok e" "length ds = ?F"
      by simp_all
    from acc(5) have nF: "?n = ?F" unfolding lds .
    define ds2 where "ds2 = (if byteSwap R then swap_bytes ds else ds)"
    have l2: "length ds2 = ?F" using acc(5) by (simp add: ds2_def length_swap_bytes)
    have "\<exists>buf2. (if byteSwap R then ByteSwap ?buf1 (fileSize R) else Some ?buf1) = Some buf2 \<and>
                 (\<forall>i<length ds2. buf2 i = ds2 ! i)"
    proof (cases "byteSwap R")
      case False
      then show ?thesis using b1 by (simp add: ds2_def)
    next
      case True
      have ne: "fileSize R \<noteq> 0xFFFFFFFF" using F by auto
      have ev: "even ?F" using wf True by (auto simp: well_formed_def)
      then have n2: "2 * ((?F + 1) div 2) = ?F" by presburger
      from ev acc(5) have evl: "even (length ds)" by simp
      have "swap_pairs ?F ?buf1 i = swap_bytes ds ! i" if "i < ?F" for i
        using swap_pairs_swap_bytes [OF evl b1, of i] that acc(5) by simp
      moreover have "ByteSwap ?buf1 (fileSize R) = Some (swap_pairs ?F ?buf1)"
        using ByteSwap_eq [OF ne, of ?buf1] by (simp only: n2)
      ultimately show ?thesis using True l2 by (simp add: ds2_def)
    qed
    then obtain buf2 where
      sw1: "(if byteSwap R then ByteSwap ?buf1 (fileSize R) else Some ?buf1) = Some buf2"
      and b2: "\<forall>i<length ds2. buf2 i = ds2 ! i"
      by blast
    have "snd (unzReadCurrentFile e buf maxSize) = ?buf1" by (simp add: rd)
    with sw1 have sw: "(if byteSwap R
          then ByteSwap (snd (unzReadCurrentFile e buf maxSize)) (fileSize R)
          else Some (snd (unzReadCurrentFile e buf maxSize))) = Some buf2"
      by (simp only:)
    from cmp acc(4) nF
    have cmp': "word_of_int (fst (unzReadCurrentFile e buf maxSize)) = fileSize R"
      by (simp only: simp_thms)
    have head: "LoadROM buf maxSize Map R e loadAll mem msgs =
      (case LoadROM_find_map Map (region R) of
         Some p \<Rightarrow>
           (case LoadROM_place R buf2 p mem 0 (offset R) of
              Some mem' \<Rightarrow>
                Some (OKAY, buf2, mem',
                      if close_crc_error e then msgs @ [Err_CRCError (entry_name e)] else msgs)
            | None \<Rightarrow> None)
       | None \<Rightarrow>
           if loadAll then
             Some (FAIL, buf2, mem,
                   (if close_crc_error e then msgs @ [Err_CRCError (entry_name e)] else msgs) @
                   [Err_NoMapping (region R)])
           else Some (OKAY, buf2, mem,
                      if close_crc_error e then msgs @ [Err_CRCError (entry_name e)] else msgs))"
      using acc(1-3) cmp' sw
      by (simp add: LoadROM_def ErrorLog_def Let_def cong: option.case_cong)
    have "mem' = Place Map R ds mem"
    proof (cases "LoadROM_find_map Map (region R)")
      case None
      with ret head have "mem' = mem" by (simp split: if_splits)
      with None show ?thesis by (simp add: Place_def flip: LoadROM_find_map_eq)
    next
      case (Some p)
      have "LoadROM_place R buf2 p mem 0 (offset R) =
              Some (Place_groups (unat (groupSize R)) (unat (stride R)) ds2 (p + unat (offset R)) mem)"
      proof (cases "fileSize R = 0")
        case True
        with l2 show ?thesis by (simp add: LoadROM_place_done Place_groups_Nil)
      next
        case False
        with wf have g: "0 < groupSize R" and d: "unat (groupSize R) dvd ?F"
          and w: "unat (offset R) + (?F div unat (groupSize R) - 1) * unat (stride R) +
                    unat (groupSize R) \<le> 2 ^ 32"
          by (simp_all add: well_formed_def)
        from d have n: "?F = unat (0 :: UINT32) + (?F div unat (groupSize R)) * unat (groupSize R)"
          by simp
        from LoadROM_place_Place_groups [OF g l2 b2 n, of "offset R" p mem] w
        show ?thesis by simp
      qed
      with ret head Some have "mem' =
          Place_groups (unat (groupSize R)) (unat (stride R)) ds2 (p + unat (offset R)) mem"
        by simp
      with Some show ?thesis by (simp add: Place_def ds2_def flip: LoadROM_find_map_eq)
    qed
    then show ?thesis using True by simp
  qed
qed

lemma LoadROM_places:
  assumes "well_formed R"
    and "LoadROM buf maxSize Map R e loadAll mem msgs = Some (res, buf', mem', msgs')"
  shows "mem' =
     (if name_ok e \<and> uncompressed_size e = unat (fileSize R) \<and> open_ok e \<and> read_ok e \<and>
         length (take (unat maxSize) (entry_data e)) = unat (fileSize R)
      then Place Map R (take (unat maxSize) (entry_data e)) mem else mem)"
  by (rule LoadROM_places_aux [OF assms refl])

lemma load_entry_places:
  assumes "in_catalog GameList G" and "\<forall>R\<in>set (ROM (snd G)). well_formed R"
    and "load_entry Map GameList G maxSize loadAll s e = Some t"
  shows "memory t = Place_entry Map (snd G) maxSize (memory s) e"
proof (cases "is_own GameList G e")
  case False
  then have "image_of (snd G) e = None"
    by (simp add: is_own_iff [OF assms(1)] image_of_def)
  with False assms(3) show ?thesis by (simp add: load_entry_skip Place_entry_def)
next
  case True
  then obtain i where i: "is_image GameList G e i" using is_own_image by blast
  then have io: "image_of (snd G) e = Some i" by (simp add: is_image_image_of [OF assms(1)])
  from is_image_in_range [OF i assms(1)] assms(2) have wf: "well_formed (ROM (snd G) ! i)" by simp
  from assms(3) obtain res buf' mem' msgs' where
    r: "LoadROM (scratch s) maxSize Map (ROM (snd G) ! i) e loadAll (memory s) (load_msgs s) =
          Some (res, buf', mem', msgs')"
    and t: "memory t = mem'"
    unfolding load_entry_image [OF i]
    by (cases "LoadROM (scratch s) maxSize Map (ROM (snd G) ! i) e loadAll (memory s) (load_msgs s)")
      auto
  from LoadROM_places [OF wf r] t io show ?thesis by (simp add: Place_entry_def Let_def)
qed

lemma load_archive_places:
  assumes "in_catalog GameList G" and "\<forall>R\<in>set (ROM (snd G)). well_formed R"
  shows "load_archive Map GameList G maxSize loadAll s zf = Some t \<Longrightarrow>
         memory t = foldl (Place_entry Map (snd G) maxSize) (memory s) zf"
proof (induction zf arbitrary: s)
  case Nil
  then show ?case by simp
next
  case (Cons e es)
  then obtain s' where
    s': "load_entry Map GameList G maxSize loadAll s e = Some s'"
      "load_archive Map GameList G maxSize loadAll s' es = Some t"
    by (cases "load_entry Map GameList G maxSize loadAll s e") auto
  from Cons.IH [OF s'(2)] load_entry_places [OF assms s'(1)] show ?case by simp
qed

lemma LoadROMSetFromZIPFile_places:
  assumes "first_match GameList zf = Some G" and "\<forall>R\<in>set (ROM (snd G)). well_formed R"
    and "LoadROMSetFromZIPFile Map GameList (Some zf) loadAll alloc mem = Some (r, mem', msgs)"
  shows "mem' =
     (if missing_images GameList G zf = [] \<and> alloc (max_fileSize (ROM (snd G)) 0) \<noteq> None
      then foldl (Place_entry Map (snd G) (max_fileSize (ROM (snd G)) 0)) mem zf else mem)"
proof (cases "missing_images GameList G zf = []")
  case False
  with assms(3) show ?thesis by (simp add: LoadROMSetFromZIPFile_missing [OF assms(1)])
next
  case True
  show ?thesis
  proof (cases "alloc (max_fileSize (ROM (snd G)) 0)")
    case None
    with assms(3) True show ?thesis
      by (simp add: LoadROMSetFromZIPFile_complete [OF assms(1) True])
  next
    case (Some buf)
    from LoadROMSetFromZIPFile_loaded [OF assms(3,1) True Some] obtain t where
      t: "load_archive Map GameList G (max_fileSize (ROM (snd G)) 0) loadAll
             \<lparr>romsLoaded = (\<lambda>_. False), scratch = buf, memory = mem,
              load_msgs = scan_msgs (scan_archive GameList zf)\<rparr> zf = Some t"
      and m: "mem' = memory t"
      by blast
    from load_archive_places [OF first_match_in_catalog [OF assms(1)] assms(2) t] m True Some
    show ?thesis by simp
  qed
qed

text \<open>
  Claim C1, as amended: let every entry of the archive that is image \<open>i\<close> of the identified
  title have an uncompressed length other than the expected one. In strict mode
  (\<open>loadAll\<close>) the load returns no title: whenever it returns, it returns null, and it
  does return when every image of the title has a length below \<open>2 ^ 31\<close> and a positive
  group size or no bytes.
  Without strict mode the load, whenever it returns after the scan has found every image
  and the scratch buffer has been allocated, returns the identified title: the wrong
  length is reported and the load goes on.
\<close>

theorem LoadROMSetFromZIPFile_wrong_size:
  assumes "first_match GameList zf = Some G" and "i < length (ROM (snd G))"
    and "\<forall>e\<in>set zf. is_image GameList G e i \<longrightarrow>
           uncompressed_size e \<noteq> unat (fileSize (ROM (snd G) ! i))"
  shows "(loadAll \<longrightarrow>
            (\<forall>r mem' msgs.
               LoadROMSetFromZIPFile Map GameList (Some zf) loadAll alloc mem = Some (r, mem', msgs) \<longrightarrow>
               r = None) \<and>
            ((\<forall>r\<in>set (ROM (snd G)). (0 < groupSize r \<or> fileSize r = 0) \<and> fileSize r < 0x80000000) \<longrightarrow>
               (\<exists>mem' msgs.
                  LoadROMSetFromZIPFile Map GameList (Some zf) loadAll alloc mem =
                    Some (None, mem', msgs)))) \<and>
         (\<not> loadAll \<and> missing_images GameList G zf = [] \<and>
          alloc (max_fileSize (ROM (snd G)) 0) \<noteq> None \<longrightarrow>
            (\<forall>r mem' msgs.
               LoadROMSetFromZIPFile Map GameList (Some zf) loadAll alloc mem = Some (r, mem', msgs) \<longrightarrow>
               r = Some G))"
proof (intro conjI impI)
  let ?load = "LoadROMSetFromZIPFile Map GameList (Some zf) loadAll alloc mem"
  assume strict: loadAll
  have null: "r = None" if eq: "?load = Some (r, mem', msgs)" for r mem' msgs
  proof (cases "missing_images GameList G zf = []")
    case False
    from eq [unfolded LoadROMSetFromZIPFile_missing [OF assms(1) False]] show ?thesis by simp
  next
    case True
    show ?thesis
    proof (cases "alloc (max_fileSize (ROM (snd G)) 0)")
      case None
      from eq [unfolded LoadROMSetFromZIPFile_complete [OF assms(1) True] None option.case]
      show ?thesis by simp
    next
      case (Some buf)
      from LoadROMSetFromZIPFile_loaded [OF eq assms(1) True Some] strict obtain t where
        t: "load_archive Map GameList G (max_fileSize (ROM (snd G)) 0) loadAll
             \<lparr>romsLoaded = (\<lambda>_. False), scratch = buf, memory = mem,
              load_msgs = scan_msgs (scan_archive GameList zf)\<rparr> zf = Some t"
        and r: "r = (if fst (count_loaded (ROM (snd G)) 0 (romsLoaded t) 0 (load_msgs t))
                     < length (ROM (snd G)) then None else Some G)"
        by blast
      from load_archive_not_loaded [OF t assms(3)] have "\<not> romsLoaded t i" by simp
      from count_loaded_less [of 0 i "ROM (snd G)" "romsLoaded t" 0 "load_msgs t", OF _ _ this]
        assms(2)
      have "fst (count_loaded (ROM (snd G)) 0 (romsLoaded t) 0 (load_msgs t)) < length (ROM (snd G))"
        by simp
      with r show ?thesis by simp
    qed
  qed
  then show "\<forall>r mem' msgs. ?load = Some (r, mem', msgs) \<longrightarrow> r = None" by blast
  show "\<exists>mem' msgs. ?load = Some (None, mem', msgs)"
    if gs: "\<forall>r\<in>set (ROM (snd G)). (0 < groupSize r \<or> fileSize r = 0) \<and> fileSize r < 0x80000000"
  proof -
    have "\<exists>x. ?load = Some x"
    proof (cases "missing_images GameList G zf = []")
      case False
      then show ?thesis by (simp add: LoadROMSetFromZIPFile_missing [OF assms(1)])
    next
      case True
      show ?thesis
      proof (cases "alloc (max_fileSize (ROM (snd G)) 0)")
        case None
        then show ?thesis unfolding LoadROMSetFromZIPFile_complete [OF assms(1) True] by simp
      next
        case buf: (Some buf)
        from load_archive_returns [OF first_match_in_catalog [OF assms(1)] gs] obtain t where
          "load_archive Map GameList G (max_fileSize (ROM (snd G)) 0) loadAll
             \<lparr>romsLoaded = (\<lambda>_. False), scratch = buf, memory = mem,
              load_msgs = scan_msgs (scan_archive GameList zf)\<rparr> zf = Some t"
          by blast
        then show ?thesis unfolding LoadROMSetFromZIPFile_complete [OF assms(1) True] buf
          by simp
      qed
    qed
    then obtain r mem' msgs where "?load = Some (r, mem', msgs)" by (metis prod_cases3)
    with null [OF this] show ?thesis by blast
  qed
next
  assume lenient: "\<not> loadAll \<and> missing_images GameList G zf = [] \<and>
          alloc (max_fileSize (ROM (snd G)) 0) \<noteq> None"
  then obtain buf where buf: "alloc (max_fileSize (ROM (snd G)) 0) = Some buf" by blast
  show "\<forall>r mem' msgs.
          LoadROMSetFromZIPFile Map GameList (Some zf) loadAll alloc mem = Some (r, mem', msgs) \<longrightarrow>
          r = Some G"
  proof (intro allI impI)
    fix r mem' msgs
    assume "LoadROMSetFromZIPFile Map GameList (Some zf) loadAll alloc mem = Some (r, mem', msgs)"
    from LoadROMSetFromZIPFile_lenient [OF _ this assms(1) _ buf] lenient
    show "r = Some G" by blast
  qed
qed

text \<open>
  Claim C4, as amended: let the archive hold an entry of another title: an entry whose
  checksum some title of the catalog lists and the title \<open>G\<close> of the first matching entry
  does not. Then the scan ends with \<open>G\<close> identified, and never holds another title; the
  scan, and the load whenever it returns, emit the multiple-games warning exactly once,
  however many such entries there are; the load returns \<open>G\<close> or null; the title and the
  destination memory that the load leaves are those of the load of the archive reduced to
  the entries whose checksums \<open>G\<close> lists; and when the images of \<open>G\<close> are well formed,
  the load returns and the memory it leaves is the memory it was given with the images of
  \<open>G\<close> placed in it, entry after entry in the order of the archive, each as the
  specification describes the placement, and nothing else (and the memory it was given
  when an image is missing or the scratch buffer cannot be allocated).
\<close>

theorem LoadROMSetFromZIPFile_first_title_wins:
  assumes "first_match GameList zf = Some G"
    and "\<exists>e\<in>set zf. info_ok e \<and> entry_crc e \<notin> crc ` set (ROM (snd G)) \<and>
           (\<exists>H\<in>set GameList. entry_crc e \<in> crc ` set (ROM H))"
  shows "Game (scan_archive GameList zf) = Some G \<and>
         (\<forall>n. Game (scan_archive GameList (take n zf)) = None \<or>
              Game (scan_archive GameList (take n zf)) = Some G) \<and>
         filter is_MultipleGames (scan_msgs (scan_archive GameList zf)) =
           [Err_MultipleGames (title (snd G))] \<and>
         (\<forall>r mem' msgs.
            LoadROMSetFromZIPFile Map GameList (Some zf) loadAll alloc mem = Some (r, mem', msgs) \<longrightarrow>
            (r = None \<or> r = Some G) \<and>
            filter is_MultipleGames msgs = [Err_MultipleGames (title (snd G))]) \<and>
         map_option (\<lambda>(r, mem', msgs). (r, mem'))
           (LoadROMSetFromZIPFile Map GameList (Some zf) loadAll alloc mem) =
         map_option (\<lambda>(r, mem', msgs). (r, mem'))
           (LoadROMSetFromZIPFile Map GameList
              (Some (filter (\<lambda>e. info_ok e \<and> entry_crc e \<in> crc ` set (ROM (snd G))) zf))
              loadAll alloc mem) \<and>
         ((\<forall>R\<in>set (ROM (snd G)). well_formed R) \<longrightarrow>
            (\<exists>r mem' msgs.
               LoadROMSetFromZIPFile Map GameList (Some zf) loadAll alloc mem = Some (r, mem', msgs) \<and>
               mem' =
                 (if missing_images GameList G zf = [] \<and>
                     alloc (max_fileSize (ROM (snd G)) 0) \<noteq> None
                  then foldl (Place_entry Map (snd G) (max_fileSize (ROM (snd G)) 0)) mem zf
                  else mem)))"
proof (intro conjI allI impI)
  note cat = first_match_in_catalog [OF assms(1)]
  have foreign: "\<exists>e\<in>set zf. is_foreign GameList G e"
    using assms(2) by (simp add: is_foreign_iff [OF cat])
  have own: "filter (\<lambda>e. info_ok e \<and> entry_crc e \<in> crc ` set (ROM (snd G))) zf =
             filter (is_own GameList G) zf"
    by (rule filter_cong) (simp_all add: is_own_iff [OF cat])
  show "Game (scan_archive GameList zf) = Some G"
    by (rule scan_archive_identified(1) [OF assms(1)])
  show "filter is_MultipleGames (scan_msgs (scan_archive GameList zf)) =
          [Err_MultipleGames (title (snd G))]"
    using scan_archive_identified(3) [OF assms(1)] foreign by simp
  show "map_option (\<lambda>(r, mem', msgs). (r, mem'))
           (LoadROMSetFromZIPFile Map GameList (Some zf) loadAll alloc mem) =
         map_option (\<lambda>(r, mem', msgs). (r, mem'))
           (LoadROMSetFromZIPFile Map GameList
              (Some (filter (\<lambda>e. info_ok e \<and> entry_crc e \<in> crc ` set (ROM (snd G))) zf))
              loadAll alloc mem)"
    unfolding own by (rule LoadROMSetFromZIPFile_own [OF assms(1)])
  {
    fix n
    show "Game (scan_archive GameList (take n zf)) = None \<or>
          Game (scan_archive GameList (take n zf)) = Some G"
    proof (cases "first_match GameList (take n zf)")
      case None
      then show ?thesis by (simp add: scan_archive_Game)
    next
      case (Some H)
      from first_match_take [OF Some] assms(1) have "H = G" by simp
      with Some show ?thesis by (simp add: scan_archive_Game)
    qed
  }
  {
    fix r mem' msgs
    assume eq: "LoadROMSetFromZIPFile Map GameList (Some zf) loadAll alloc mem = Some (r, mem', msgs)"
    from LoadROMSetFromZIPFile_warnings(2) [OF eq assms(1)] show "r = None \<or> r = Some G" .
    from LoadROMSetFromZIPFile_warnings(1) [OF eq assms(1)] foreign
    show "filter is_MultipleGames msgs = [Err_MultipleGames (title (snd G))]" by simp
  }
  {
    assume wf: "\<forall>R\<in>set (ROM (snd G)). well_formed R"
    then have "\<forall>r\<in>set (ROM (snd G)).
                 (0 < groupSize r \<or> fileSize r = 0) \<and> fileSize r < 0x80000000"
      by (auto simp: well_formed_def)
    from LoadROMSetFromZIPFile_returns_identified [OF assms(1) this] obtain r mem' msgs where
      eq: "LoadROMSetFromZIPFile Map GameList (Some zf) loadAll alloc mem = Some (r, mem', msgs)"
      by (metis prod_cases3)
    from LoadROMSetFromZIPFile_places [OF assms(1) wf eq] eq
    show "\<exists>r mem' msgs.
            LoadROMSetFromZIPFile Map GameList (Some zf) loadAll alloc mem = Some (r, mem', msgs) \<and>
            mem' =
              (if missing_images GameList G zf = [] \<and>
                  alloc (max_fileSize (ROM (snd G)) 0) \<noteq> None
               then foldl (Place_entry Map (snd G) (max_fileSize (ROM (snd G)) 0)) mem zf
               else mem)"
      by blast
  }
qed

section \<open>The example archives\<close>

lemmas ex_defs = ex_catalog_def ex_game_A_def ex_game_B_def ex_rom_A1_def ex_rom_A2_def
  ex_rom_B1_def ex_entry_def ex_Map_def ex_alloc_def

lemmas lookup_defs = FindROMByCRC_def FindROMByCRCInGame_def is_image_def is_own_def
  is_foreign_def present_def missing_images_def

lemma ex_first_match:
  "first_match ex_catalog ex_zip_A = Some (0, ex_game_A)"
  "first_match ex_catalog ex_zip_A1 = Some (0, ex_game_A)"
  "first_match ex_catalog ex_zip_AB = Some (0, ex_game_A)"
  "first_match ex_catalog ex_zip_bad = Some (0, ex_game_A)"
  "first_match ex_catalog ex_zip_dup = Some (0, ex_game_A)"
  by (simp_all add: ex_zip_A_def ex_zip_A1_def ex_zip_AB_def ex_zip_bad_def ex_zip_dup_def
      ex_defs lookup_defs)

lemma ex_upt2: "[0..<Suc (Suc 0)] = [0, Suc 0]"
  by (simp add: upt_rec)

lemma ex_missing:
  "missing_images ex_catalog (0, ex_game_A) ex_zip_A = []"
  "missing_images ex_catalog (0, ex_game_A) ex_zip_A1 = [1]"
  "missing_images ex_catalog (0, ex_game_A) ex_zip_AB = []"
  "missing_images ex_catalog (0, ex_game_A) ex_zip_bad = []"
  "missing_images ex_catalog (0, ex_game_A) ex_zip_dup = []"
  by (simp_all add: ex_zip_A_def ex_zip_A1_def ex_zip_AB_def ex_zip_bad_def ex_zip_dup_def
      ex_defs lookup_defs ex_upt2)

lemma ex_catalog_groups:
  "\<forall>G\<in>set ex_catalog. \<forall>r\<in>set (ROM G). (0 < groupSize r \<or> fileSize r = 0) \<and> fileSize r < 0x80000000"
  by (simp add: ex_defs)


lemma ex_lenient_load:
  assumes "first_match ex_catalog zf = Some G" and "missing_images ex_catalog G zf = []"
  shows "map_option fst (LoadROMSetFromZIPFile ex_Map ex_catalog (Some zf) False ex_alloc ex_mem) =
           Some (Some G)"
proof -
  from LoadROMSetFromZIPFile_returns [OF ex_catalog_groups]
  obtain r mem' msgs where
    eq: "LoadROMSetFromZIPFile ex_Map ex_catalog (Some zf) False ex_alloc ex_mem = Some (r, mem', msgs)"
    by (metis prod_cases3)
  from LoadROMSetFromZIPFile_lenient [OF _ eq assms] have "r = Some G" by (simp add: ex_alloc_def)
  with eq show ?thesis by simp
qed

lemma ex_strict_dup:
  "map_option fst (LoadROMSetFromZIPFile ex_Map ex_catalog (Some ex_zip_dup) True ex_alloc ex_mem) =
     Some (Some (0, ex_game_A))"
  unfolding LoadROMSetFromZIPFile_complete [OF ex_first_match(5) ex_missing(5)]
  by (simp add: ex_zip_dup_def ex_defs load_entry_def LoadROM_def unzReadCurrentFile_def
      FindROMByCRC_def FindROMByCRCInGame_def ErrorLog_def LoadROM_place_interleave Let_def)

lemma ex_strict_AB:
  "map_option fst (LoadROMSetFromZIPFile ex_Map ex_catalog (Some ex_zip_AB) True ex_alloc ex_mem) =
     Some (Some (0, ex_game_A))"
  unfolding LoadROMSetFromZIPFile_complete [OF ex_first_match(3) ex_missing(3)]
  by (simp add: ex_zip_AB_def ex_defs load_entry_def LoadROM_def unzReadCurrentFile_def
      FindROMByCRC_def FindROMByCRCInGame_def ErrorLog_def LoadROM_place_interleave Let_def)

lemma ex_max_fileSize: "max_fileSize (ROM ex_game_A) 0 = 2"
  by (simp add: ex_defs)

lemma ex_place_AB:
  "foldl (Place_entry ex_Map ex_game_A 2) ex_mem ex_zip_AB =
     ex_mem(100 := 1, 102 := 2, 101 := 3, 103 := 4)"
  by (simp add: ex_zip_AB_def ex_defs Place_entry_def image_of_def Place_def Place_groups_step
      Place_groups_Nil Let_def fun_eq_iff)

lemma ex_well_formed: "\<forall>R\<in>set (ROM ex_game_A). well_formed R"
  by (simp add: ex_defs well_formed_def)

lemmas ex_shared_defs = ex_catalog_shared_def ex_game_B2_def ex_rom_B2_def

lemma ex_shared_first_match: "first_match ex_catalog_shared ex_zip_A = Some (0, ex_game_A)"
  by (simp add: ex_zip_A_def ex_shared_defs ex_defs lookup_defs)

lemma ex_shared_missing: "missing_images ex_catalog_shared (0, ex_game_A) ex_zip_A = []"
  by (simp add: ex_zip_A_def ex_shared_defs ex_defs lookup_defs ex_upt2)

lemma ex_shared_no_foreign:
  "\<not> (\<exists>e\<in>set ex_zip_A. is_foreign ex_catalog_shared (0, ex_game_A) e)"
  by (simp add: ex_zip_A_def ex_shared_defs ex_defs lookup_defs)

lemma ex_shared_load:
  "map_option fst
     (LoadROMSetFromZIPFile ex_Map ex_catalog_shared (Some ex_zip_A) True ex_alloc ex_mem) =
     Some (Some (0, ex_game_A))"
  unfolding LoadROMSetFromZIPFile_complete [OF ex_shared_first_match ex_shared_missing]
  by (simp add: ex_zip_A_def ex_shared_defs ex_defs load_entry_def LoadROM_def
      unzReadCurrentFile_def FindROMByCRC_def FindROMByCRCInGame_def ErrorLog_def
      LoadROM_place_interleave Let_def)

section \<open>The properties of the load on the example archives\<close>

text \<open>
  An entry of the wrong length does not by itself make the load return null. In
  \<open>ex_zip_bad\<close> the second image of title A has length 3 instead of 2, and the load
  without \<open>loadAll\<close> returns title A. In \<open>ex_zip_dup\<close> a further entry has the same
  image at its right length, and the load with \<open>loadAll\<close> returns title A.
\<close>

theorem LoadROMSetFromZIPFile_wrong_size_not_fatal:
  "first_match ex_catalog ex_zip_bad = Some (0, ex_game_A) \<and>
   ex_entry 18 3 [3, 4, 5] \<in> set ex_zip_bad \<and>
   is_image ex_catalog (0, ex_game_A) (ex_entry 18 3 [3, 4, 5]) 1 \<and>
   uncompressed_size (ex_entry 18 3 [3, 4, 5]) \<noteq> unat (fileSize (ROM ex_game_A ! 1)) \<and>
   map_option fst (LoadROMSetFromZIPFile ex_Map ex_catalog (Some ex_zip_bad) False ex_alloc ex_mem) =
     Some (Some (0, ex_game_A)) \<and>
   first_match ex_catalog ex_zip_dup = Some (0, ex_game_A) \<and>
   ex_entry 18 3 [3, 4, 5] \<in> set ex_zip_dup \<and>
   map_option fst (LoadROMSetFromZIPFile ex_Map ex_catalog (Some ex_zip_dup) True ex_alloc ex_mem) =
     Some (Some (0, ex_game_A))"
proof -
  have "is_image ex_catalog (0, ex_game_A) (ex_entry 18 3 [3, 4, 5]) 1"
    by (simp add: ex_defs lookup_defs)
  moreover have "uncompressed_size (ex_entry 18 3 [3, 4, 5]) \<noteq> unat (fileSize (ROM ex_game_A ! 1))"
    by (simp add: ex_defs)
  moreover have "ex_entry 18 3 [3, 4, 5] \<in> set ex_zip_bad" "ex_entry 18 3 [3, 4, 5] \<in> set ex_zip_dup"
    by (simp_all add: ex_zip_bad_def ex_zip_dup_def)
  ultimately show ?thesis
    using ex_first_match(4,5) ex_lenient_load [OF ex_first_match(4) ex_missing(4)] ex_strict_dup
    by simp
qed

theorem LoadROMSetFromZIPFile_wrong_size_witness:
  "first_match ex_catalog ex_zip_bad = Some (0, ex_game_A) \<and>
   1 < length (ROM (snd (0 :: nat, ex_game_A))) \<and>
   ex_entry 18 3 [3, 4, 5] \<in> set ex_zip_bad \<and>
   is_image ex_catalog (0, ex_game_A) (ex_entry 18 3 [3, 4, 5]) 1 \<and>
   uncompressed_size (ex_entry 18 3 [3, 4, 5]) \<noteq>
     unat (fileSize (ROM (snd (0 :: nat, ex_game_A)) ! 1)) \<and>
   (\<exists>mem' msgs. LoadROMSetFromZIPFile ex_Map ex_catalog (Some ex_zip_bad) True ex_alloc ex_mem =
      Some (None, mem', msgs)) \<and>
   (\<exists>mem' msgs. LoadROMSetFromZIPFile ex_Map ex_catalog (Some ex_zip_bad) False ex_alloc ex_mem =
      Some (Some (0, ex_game_A), mem', msgs))"
proof -
  have i: "1 < length (ROM (snd (0 :: nat, ex_game_A)))" by (simp add: ex_defs)
  have w: "\<forall>e\<in>set ex_zip_bad. is_image ex_catalog (0, ex_game_A) e 1 \<longrightarrow>
      uncompressed_size e \<noteq> unat (fileSize (ROM (snd (0 :: nat, ex_game_A)) ! 1))"
    by (simp add: ex_zip_bad_def ex_defs lookup_defs)
  have g: "\<forall>r\<in>set (ROM (snd (0 :: nat, ex_game_A))). (0 < groupSize r \<or> fileSize r = 0) \<and> fileSize r < 0x80000000"
    by (simp add: ex_defs)
  have a: "ex_alloc (max_fileSize (ROM (snd (0 :: nat, ex_game_A))) 0) \<noteq> None"
    by (simp add: ex_alloc_def)
  from LoadROMSetFromZIPFile_wrong_size [OF ex_first_match(4) i w, of True ex_Map ex_alloc ex_mem] g
  have strict: "\<exists>mem' msgs.
      LoadROMSetFromZIPFile ex_Map ex_catalog (Some ex_zip_bad) True ex_alloc ex_mem =
      Some (None, mem', msgs)"
    by blast
  from LoadROMSetFromZIPFile_returns [OF ex_catalog_groups] obtain r mem' msgs where
    eq: "LoadROMSetFromZIPFile ex_Map ex_catalog (Some ex_zip_bad) False ex_alloc ex_mem =
           Some (r, mem', msgs)"
    by (metis prod_cases3)
  from LoadROMSetFromZIPFile_wrong_size [OF ex_first_match(4) i w, of False ex_Map ex_alloc ex_mem]
    ex_missing(4) a eq
  have "r = Some (0, ex_game_A)" by blast
  with eq have lenient: "\<exists>mem' msgs.
      LoadROMSetFromZIPFile ex_Map ex_catalog (Some ex_zip_bad) False ex_alloc ex_mem =
      Some (Some (0, ex_game_A), mem', msgs)"
    by blast
  have "ex_entry 18 3 [3, 4, 5] \<in> set ex_zip_bad" by (simp add: ex_zip_bad_def)
  moreover have "is_image ex_catalog (0, ex_game_A) (ex_entry 18 3 [3, 4, 5]) 1"
    by (simp add: ex_defs lookup_defs)
  moreover have "uncompressed_size (ex_entry 18 3 [3, 4, 5]) \<noteq>
      unat (fileSize (ROM (snd (0 :: nat, ex_game_A)) ! 1))"
    by (simp add: ex_defs)
  ultimately show ?thesis using ex_first_match(4) i strict lenient by blast
qed

theorem LoadROMSetFromZIPFile_incomplete_leaves_memory_witness:
  "first_match ex_catalog ex_zip_A1 = Some (0, ex_game_A) \<and>
   missing_images ex_catalog (0, ex_game_A) ex_zip_A1 \<noteq> [] \<and>
   (\<exists>msgs. LoadROMSetFromZIPFile ex_Map ex_catalog (Some ex_zip_A1) True ex_alloc ex_mem =
      Some (None, ex_mem, msgs))"
proof -
  have h: "\<forall>zf. Some ex_zip_A1 = Some zf \<longrightarrow>
      first_match ex_catalog zf = None \<or>
      (\<exists>G. first_match ex_catalog zf = Some G \<and> missing_images ex_catalog G zf \<noteq> [])"
    using ex_first_match(2) ex_missing(2) by auto
  from LoadROMSetFromZIPFile_incomplete_leaves_memory [OF h] ex_first_match(2) ex_missing(2)
  show ?thesis by simp
qed

theorem LoadROMSetFromZIPFile_reports_every_missing_witness:
  "first_match ex_catalog ex_zip_A1 = Some (0, ex_game_A) \<and>
   missing_images ex_catalog (0, ex_game_A) ex_zip_A1 \<noteq> [] \<and>
   (\<exists>msgs. LoadROMSetFromZIPFile ex_Map ex_catalog (Some ex_zip_A1) True ex_alloc ex_mem =
      Some (None, ex_mem, msgs) \<and>
      filter is_Missing msgs = [Err_Missing ''a2.bin'' 18])"
proof -
  have m: "missing_images ex_catalog (0, ex_game_A) ex_zip_A1 \<noteq> []"
    by (simp add: ex_missing(2))
  have v: "map (\<lambda>i. Err_Missing (file' (ROM (snd (0 :: nat, ex_game_A)) ! i))
                  (crc (ROM (snd (0 :: nat, ex_game_A)) ! i))) [1] =
           [Err_Missing ''a2.bin'' 18]"
    by (simp add: ex_defs)
  note w = LoadROMSetFromZIPFile_reports_every_missing [OF ex_first_match(2) m,
      of ex_Map True ex_alloc ex_mem, unfolded ex_missing(2) v]
  from w ex_first_match(2) m show ?thesis by blast
qed

theorem LoadROMSetFromZIPFile_returns_catalog_entry_witness:
  "\<exists>mem' msgs.
     LoadROMSetFromZIPFile ex_Map ex_catalog (Some ex_zip_A) False ex_alloc ex_mem =
       Some (Some (0, ex_game_A), mem', msgs) \<and>
     0 < length ex_catalog \<and> ex_catalog ! 0 = ex_game_A \<and>
     (\<exists>pre e suf. ex_zip_A = pre @ e # suf \<and>
        (\<forall>x\<in>set pre. info_ok x \<longrightarrow> (\<forall>H\<in>set ex_catalog. entry_crc x \<notin> crc ` set (ROM H))) \<and>
        info_ok e \<and> entry_crc e \<in> crc ` set (ROM ex_game_A))"
proof -
  from ex_lenient_load [OF ex_first_match(1) ex_missing(1)] obtain mem' msgs where
    eq: "LoadROMSetFromZIPFile ex_Map ex_catalog (Some ex_zip_A) False ex_alloc ex_mem =
       Some (Some (0, ex_game_A), mem', msgs)"
    by (cases "LoadROMSetFromZIPFile ex_Map ex_catalog (Some ex_zip_A) False ex_alloc ex_mem") auto
  from LoadROMSetFromZIPFile_returns_catalog_entry [OF eq]
  have "0 < length ex_catalog \<and> ex_catalog ! 0 = ex_game_A \<and>
     (\<exists>pre e suf. ex_zip_A = pre @ e # suf \<and>
        (\<forall>x\<in>set pre. info_ok x \<longrightarrow> (\<forall>H\<in>set ex_catalog. entry_crc x \<notin> crc ` set (ROM H))) \<and>
        info_ok e \<and> entry_crc e \<in> crc ` set (ROM ex_game_A))"
    by simp
  with eq show ?thesis by blast
qed

theorem LoadROMSetFromZIPFile_first_title_wins_witness:
  "first_match ex_catalog ex_zip_AB = Some (0, ex_game_A) \<and>
   (\<exists>e\<in>set ex_zip_AB. info_ok e \<and> entry_crc e \<notin> crc ` set (ROM ex_game_A) \<and>
      (\<exists>H\<in>set ex_catalog. entry_crc e \<in> crc ` set (ROM H))) \<and>
   well_formed ex_rom_A1 \<and> well_formed ex_rom_A2 \<and>
   Game (scan_archive ex_catalog ex_zip_AB) = Some (0, ex_game_A) \<and>
   filter is_MultipleGames (scan_msgs (scan_archive ex_catalog ex_zip_AB)) =
     [Err_MultipleGames ''Game A''] \<and>
   (\<exists>mem' msgs.
      LoadROMSetFromZIPFile ex_Map ex_catalog (Some ex_zip_AB) True ex_alloc ex_mem =
        Some (Some (0, ex_game_A), mem', msgs) \<and>
      filter is_MultipleGames msgs = [Err_MultipleGames ''Game A''] \<and>
      mem' = ex_mem(100 := 1, 102 := 2, 101 := 3, 103 := 4)) \<and>
   map_option (\<lambda>(r, mem', msgs). (r, mem'))
     (LoadROMSetFromZIPFile ex_Map ex_catalog (Some ex_zip_AB) True ex_alloc ex_mem) =
   map_option (\<lambda>(r, mem', msgs). (r, mem'))
     (LoadROMSetFromZIPFile ex_Map ex_catalog (Some ex_zip_A) True ex_alloc ex_mem)"
proof -
  have f: "\<exists>e\<in>set ex_zip_AB. info_ok e \<and> entry_crc e \<notin> crc ` set (ROM (snd (0 :: nat, ex_game_A))) \<and>
      (\<exists>H\<in>set ex_catalog. entry_crc e \<in> crc ` set (ROM H))"
    by (simp add: ex_zip_AB_def ex_defs)
  have o: "filter (\<lambda>e. info_ok e \<and> entry_crc e \<in> crc ` set (ROM (snd (0 :: nat, ex_game_A))))
             ex_zip_AB = ex_zip_A"
    by (simp add: ex_zip_AB_def ex_zip_A_def ex_defs)
  have t: "title (snd (0 :: nat, ex_game_A)) = ''Game A''" by (simp add: ex_defs)
  have wf: "\<forall>R\<in>set (ROM (snd (0 :: nat, ex_game_A))). well_formed R"
    using ex_well_formed by simp
  have wfs: "well_formed ex_rom_A1" "well_formed ex_rom_A2"
    using ex_well_formed by (simp_all add: ex_game_A_def)
  note w = LoadROMSetFromZIPFile_first_title_wins [OF ex_first_match(3) f,
      of ex_Map True ex_alloc ex_mem, unfolded o t]
  from w wf obtain r mem' msgs where
    eq: "LoadROMSetFromZIPFile ex_Map ex_catalog (Some ex_zip_AB) True ex_alloc ex_mem =
           Some (r, mem', msgs)"
    and m: "mem' =
       (if missing_images ex_catalog (0, ex_game_A) ex_zip_AB = [] \<and>
           ex_alloc (max_fileSize (ROM (snd (0 :: nat, ex_game_A))) 0) \<noteq> None
        then foldl (Place_entry ex_Map (snd (0 :: nat, ex_game_A))
                      (max_fileSize (ROM (snd (0 :: nat, ex_game_A))) 0)) ex_mem ex_zip_AB
        else ex_mem)"
    by blast
  from m have mem: "mem' = ex_mem(100 := 1, 102 := 2, 101 := 3, 103 := 4)"
    by (simp add: ex_missing(3) ex_alloc_def ex_max_fileSize ex_place_AB)
  from ex_strict_AB eq have r: "r = Some (0, ex_game_A)" by simp
  from w eq have "filter is_MultipleGames msgs = [Err_MultipleGames ''Game A'']" by blast
  with eq r mem have "\<exists>mem' msgs.
      LoadROMSetFromZIPFile ex_Map ex_catalog (Some ex_zip_AB) True ex_alloc ex_mem =
        Some (Some (0, ex_game_A), mem', msgs) \<and>
      filter is_MultipleGames msgs = [Err_MultipleGames ''Game A''] \<and>
      mem' = ex_mem(100 := 1, 102 := 2, 101 := 3, 103 := 4)"
    by blast
  with w wfs ex_first_match(3) f show ?thesis by simp
qed

text \<open>
  An archive with images of two titles that draws no warning. In the catalog
  \<open>ex_catalog_shared\<close> the checksum 18 is listed by title A and by title B2, so the
  archive \<open>ex_zip_A\<close> holds an image of each of the two titles. The lookup tries the
  identified title first, every entry is found there, and the load returns title A without
  a multiple-games warning.
\<close>

theorem LoadROMSetFromZIPFile_shared_checksum_no_warning:
  "ex_game_A \<in> set ex_catalog_shared \<and> ex_game_B2 \<in> set ex_catalog_shared \<and>
   title ex_game_A \<noteq> title ex_game_B2 \<and>
   ex_entry 17 2 [1, 2] \<in> set ex_zip_A \<and>
   entry_crc (ex_entry 17 2 [1, 2]) \<in> crc ` set (ROM ex_game_A) \<and>
   ex_entry 18 2 [3, 4] \<in> set ex_zip_A \<and>
   entry_crc (ex_entry 18 2 [3, 4]) \<in> crc ` set (ROM ex_game_B2) \<and>
   map_option fst
     (LoadROMSetFromZIPFile ex_Map ex_catalog_shared (Some ex_zip_A) True ex_alloc ex_mem) =
     Some (Some (0, ex_game_A)) \<and>
   map_option (filter is_MultipleGames \<circ> snd \<circ> snd)
     (LoadROMSetFromZIPFile ex_Map ex_catalog_shared (Some ex_zip_A) True ex_alloc ex_mem) =
     Some []"
proof -
  from ex_shared_load obtain mem' msgs where
    eq: "LoadROMSetFromZIPFile ex_Map ex_catalog_shared (Some ex_zip_A) True ex_alloc ex_mem =
           Some (Some (0, ex_game_A), mem', msgs)"
    by (cases "LoadROMSetFromZIPFile ex_Map ex_catalog_shared (Some ex_zip_A) True ex_alloc ex_mem")
      auto
  from LoadROMSetFromZIPFile_warnings(1) [OF eq ex_shared_first_match] ex_shared_no_foreign
  have "filter is_MultipleGames msgs = []" by simp
  with eq show ?thesis
    by (simp add: ex_zip_A_def ex_shared_defs ex_defs)
qed

end
